theory Spec2Isabelle
  imports Main "HOL-Library.AList" "HOL-Library.List_Lexorder" "HOL-Library.Product_Lexorder"
begin

section \<open>Strings\<close>

text \<open>
  A Python \<open>str\<close> is a sequence of Unicode code points: \<open>len\<close> counts code points and
  \<open>==\<close>, \<open><\<close> compare them one by one. The formulas of this program contain the two
  non-ASCII symbols U+2192 (the arrow) and U+00AC (the negation sign), so a string is
  modelled as the list of its code points.
\<close>

type_synonym pystr = "nat list"

definition str :: "string \<Rightarrow> pystr" where
  "str s = map of_char s"

definition ARROW :: nat where "ARROW = 8594"
definition NEG :: nat where "NEG = 172"

definition startswith :: "pystr \<Rightarrow> pystr \<Rightarrow> bool" where
  "startswith s pre = (take (length pre) s = pre)"

definition endswith :: "pystr \<Rightarrow> pystr \<Rightarrow> bool" where
  "endswith s suf = (length suf \<le> length s \<and> drop (length s - length suf) s = suf)"

text \<open>The slice \<open>s[n:-1]\<close> for \<open>n \<ge> 0\<close>: the characters from index \<open>n\<close> up to, and
  without, the last one (empty when there are none).\<close>

definition slice_from_to_last :: "pystr \<Rightarrow> nat \<Rightarrow> pystr" where
  "slice_from_to_last s n = drop n (butlast s)"

section \<open>Modus Ponens\<close>

definition expected_form :: "pystr \<Rightarrow> pystr" where
  "expected_form p = str ''('' @ p @ str '' '' @ [ARROW] @ str '' ''"

definition apply_mp :: "pystr \<Rightarrow> pystr \<Rightarrow> pystr option" where
  "apply_mp p p_implies_q =
     (if startswith p_implies_q (expected_form p) \<and> endswith p_implies_q (str '')'')
      then Some (slice_from_to_last p_implies_q (length (expected_form p)))
      else None)"

section \<open>Substitution\<close>

text \<open>
  \<open>re.sub(r'\b' + re.escape(var) + r'\b', wff, formula)\<close> replaces, from left to right and
  without overlap, every occurrence of the literal text \<open>var\<close> that has a word boundary
  on both sides. A word character is what \<open>\w\<close> matches: on ASCII the letters, the digits
  and the underscore. For other code points Python asks the Unicode database; the two
  the program uses, the negation sign and the arrow, are mathematical symbols and no
  word characters. The replacement text is a template in which a backslash starts an
  escape. The model covers ASCII text with these two symbols and a replacement free of
  backslashes (then the replacement is inserted as it is); outside of that it gives
  \<open>None\<close>.
\<close>

definition BACKSLASH :: nat where "BACKSLASH = 92"

definition is_word_char :: "nat \<Rightarrow> bool" where
  "is_word_char c =
     ((48 \<le> c \<and> c \<le> 57) \<or> (65 \<le> c \<and> c \<le> 90) \<or> c = 95 \<or> (97 \<le> c \<and> c \<le> 122))"

definition modelled_text :: "pystr \<Rightarrow> bool" where
  "modelled_text s = list_all (\<lambda>c. c < 128 \<or> c = NEG \<or> c = ARROW) s"

fun is_word_at :: "nat option \<Rightarrow> bool" where
  "is_word_at None = False"
| "is_word_at (Some c) = is_word_char c"

fun first_char :: "pystr \<Rightarrow> nat option" where
  "first_char [] = None"
| "first_char (c # cs) = Some c"

text \<open>\<open>\b\<close> between the character \<open>prev\<close> (None at the start of the text) and the
  rest of the text.\<close>

definition word_boundary :: "nat option \<Rightarrow> pystr \<Rightarrow> bool" where
  "word_boundary prev rest = (is_word_at prev \<noteq> is_word_at (first_char rest))"

text \<open>The pattern \<open>\bvar\b\<close> matches at the position whose previous character is
  \<open>prev\<close> and whose remaining text is \<open>rest\<close>.\<close>

definition match_here :: "pystr \<Rightarrow> nat option \<Rightarrow> pystr \<Rightarrow> bool" where
  "match_here var prev rest =
     (word_boundary prev rest \<and> startswith rest var \<and>
      word_boundary (if var = [] then prev else Some (last var)) (drop (length var) rest))"

function re_sub_from :: "pystr \<Rightarrow> pystr \<Rightarrow> nat option \<Rightarrow> pystr \<Rightarrow> pystr" where
  "re_sub_from var repl prev [] = (if match_here var prev [] then repl else [])"
| "re_sub_from var repl prev (c # cs) =
     (if match_here var prev (c # cs) then
        (if var = [] then repl @ c # re_sub_from var repl (Some c) cs
         else repl @ re_sub_from var repl (Some (last var)) (drop (length var) (c # cs)))
      else c # re_sub_from var repl (Some c) cs)"
  by pat_completeness auto
termination
  by (relation "measure (\<lambda>(var, repl, prev, s). length s)") auto

definition re_sub_word :: "pystr \<Rightarrow> pystr \<Rightarrow> pystr \<Rightarrow> pystr option" where
  "re_sub_word var repl s =
     (if modelled_text var \<and> modelled_text repl \<and> modelled_text s \<and> BACKSLASH \<notin> set repl
      then Some (re_sub_from var repl None s) else None)"

text \<open>
  A \<open>dict\<close> keeps its keys in insertion order, and storing under a key that is present
  replaces the value where the key stands: an association list with \<open>AList.update\<close>.
\<close>

definition dict_zip :: "'k list \<Rightarrow> 'v list \<Rightarrow> ('k \<times> 'v) list" where
  "dict_zip ks vs = fold (\<lambda>(k, v) d. AList.update k v d) (zip ks vs) []"

text \<open>\<open>sorted(sub_dict.keys(), key=len, reverse=True)\<close>: the stable sort in descending
  order, which keeps keys of equal length in their order. The loop reads
  \<open>sub_dict[var]\<close> for each key, so the model sorts the pairs of the dict.\<close>

definition sorted_keys :: "(pystr \<times> pystr) list \<Rightarrow> (pystr \<times> pystr) list" where
  "sorted_keys sub_dict = rev (sort_key (\<lambda>kv. length (fst kv)) (rev sub_dict))"

fun substitute_loop :: "(pystr \<times> pystr) list \<Rightarrow> pystr \<Rightarrow> pystr option" where
  "substitute_loop [] formula = Some formula"
| "substitute_loop ((var, wff) # rest) formula =
     (case re_sub_word var wff formula of
        None \<Rightarrow> None
      | Some formula' \<Rightarrow> substitute_loop rest formula')"

definition substitute :: "pystr \<Rightarrow> (pystr \<times> pystr) list \<Rightarrow> pystr option" where
  "substitute template sub_dict = substitute_loop (sorted_keys sub_dict) template"

section \<open>Configuration\<close>

text \<open>The module constants \<open>MAX_LENGTH\<close>, \<open>WFF_BASIS\<close> and \<open>AXIOM_TEMPLATES\<close>, passed
  to the search as a record. A template is a name with its text and its variables, in
  the order of the dict.\<close>

record config =
  max_length :: nat
  wff_basis :: "pystr list"
  axiom_templates :: "(pystr \<times> pystr \<times> pystr list) list"



definition A1_template :: pystr where
  "A1_template = str ''(A '' @ [ARROW] @ str '' (B '' @ [ARROW] @ str '' A))''"

definition A2_template :: pystr where
  "A2_template =
     str ''((A '' @ [ARROW] @ str '' (B '' @ [ARROW] @ str '' C)) '' @ [ARROW]
     @ str '' ((A '' @ [ARROW] @ str '' B) '' @ [ARROW] @ str '' (A '' @ [ARROW] @ str '' C)))''"

definition A3_template :: pystr where
  "A3_template =
     str ''(('' @ [NEG] @ str ''B '' @ [ARROW] @ str '' '' @ [NEG] @ str ''A) '' @ [ARROW]
     @ str '' (A '' @ [ARROW] @ str '' B))''"

definition AXIOM_TEMPLATES :: "(pystr \<times> pystr \<times> pystr list) list" where
  "AXIOM_TEMPLATES =
    [(str ''A1'', A1_template, [str ''A'', str ''B'']),
     (str ''A2'', A2_template, [str ''A'', str ''B'', str ''C'']),
     (str ''A3'', A3_template, [str ''A'', str ''B''])]"


section \<open>Proofs, justifications and the report\<close>

text \<open>A proof is the pair of its steps and its justifications, two tuples of strings.\<close>

type_synonym pyproof = "pystr list \<times> pystr list"

function str_of_nat :: "nat \<Rightarrow> pystr" where
  "str_of_nat n = (if n < 10 then [48 + n] else str_of_nat (n div 10) @ [48 + n mod 10])"
  by pat_completeness auto
termination
  by (relation "measure id") auto

declare str_of_nat.simps [simp del]

fun join :: "pystr \<Rightarrow> pystr list \<Rightarrow> pystr" where
  "join sep [] = []"
| "join sep [x] = x"
| "join sep (x # y # ys) = x @ sep @ join sep (y # ys)"

definition axiom_just :: "pystr \<Rightarrow> (pystr \<times> pystr) list \<Rightarrow> pystr" where
  "axiom_just name sub_dict =
     name @ str '' ['' @ join (str '', '') (map (\<lambda>(k, v). k @ str ''='' @ v) sub_dict) @ str '']''"

definition mp_just :: "nat \<Rightarrow> nat \<Rightarrow> pystr" where
  "mp_just i j = str ''MP ('' @ str_of_nat (i + 1) @ str '','' @ str_of_nat (j + 1) @ str '')''"

definition get_proof_complexity :: "pystr list \<Rightarrow> nat" where
  "get_proof_complexity steps = sum_list (map length steps)"

text \<open>\<open>print_proof\<close> writes nothing for an empty proof; otherwise one text, the numbered
  lines with every formula padded to the longest one, then the line of dashes.\<close>

definition print_proof :: "pystr list \<Rightarrow> pystr list \<Rightarrow> pystr option" where
  "print_proof steps justifications =
     (if steps = [] then None
      else
        let max_len = fold max (map length steps) 0;
            line = (\<lambda>(i, step, just).
               str ''  '' @ str_of_nat i @ str ''. '' @ step
               @ replicate (max_len - length step) 32 @ str ''   '' @ just @ [10])
        in Some (concat (map line (zip [1 ..< Suc (length steps)] (zip steps justifications)))
                 @ replicate 20 45 @ [10]))"

text \<open>What \<open>find_all_proofs\<close> writes to the file: one entry for each \<open>write\<close> call, with
  the values its text is formatted from.\<close>

datatype report_line =
    GeneratingAxioms
  | UsingBasis nat "pystr list"
  | FoundLength1 nat
  | SearchingUpTo nat
  | NoProofsOfLength nat
  | GeneratingLength nat nat nat
  | FoundNewOfLength nat nat
  | NoNewOfLength nat
  | SearchComplete
  | FoundTotal nat
  | FoundWithMP nat
  | NoProofsWithMP
  | FilteringDown nat
  | PrintedProof pystr

section \<open>The search\<close>

record search_state =
  proofs_at_len :: "nat \<Rightarrow> pyproof list"
  seen_steps_at_len :: "nat \<Rightarrow> pystr list set"
  total_proof_count :: nat
  written :: "report_line list"

definition initial_state :: search_state where
  "initial_state =
     \<lparr>proofs_at_len = (\<lambda>k. []), seen_steps_at_len = (\<lambda>k. {}),
      total_proof_count = 0, written = []\<rparr>"

definition write_line :: "report_line \<Rightarrow> search_state \<Rightarrow> search_state" where
  "write_line l st = st\<lparr>written := written st @ [l]\<rparr>"

text \<open>The block that the source repeats for the axioms, for Option A and for Option B:
  the new proof is appended to layer \<open>k\<close>, recorded as seen and counted, if its steps
  are not among the step sequences seen at length \<open>k\<close>.\<close>

definition add_proof :: "nat \<Rightarrow> pyproof \<Rightarrow> search_state \<Rightarrow> search_state" where
  "add_proof k new_proof st =
     (if fst new_proof \<in> seen_steps_at_len st k then st
      else st\<lparr>proofs_at_len := (proofs_at_len st)(k := proofs_at_len st k @ [new_proof]),
              seen_steps_at_len :=
                (seen_steps_at_len st)(k := insert (fst new_proof) (seen_steps_at_len st k)),
              total_proof_count := total_proof_count st + 1\<rparr>)"

fun fold_option :: "('a \<Rightarrow> 's \<Rightarrow> 's option) \<Rightarrow> 'a list \<Rightarrow> 's \<Rightarrow> 's option" where
  "fold_option f [] st = Some st"
| "fold_option f (x # xs) st =
     (case f x st of None \<Rightarrow> None | Some st' \<Rightarrow> fold_option f xs st')"

definition instantiate_axiom ::
  "pystr \<Rightarrow> pystr \<Rightarrow> pystr list \<Rightarrow> pystr list \<Rightarrow> search_state \<Rightarrow> search_state option" where
  "instantiate_axiom name template vars combo st =
     (let sub_dict = dict_zip vars combo;
          just = axiom_just name sub_dict
      in case substitute template sub_dict of
           None \<Rightarrow> None
         | Some formula \<Rightarrow> Some (add_proof 1 ([formula], [just]) st))"

definition generate_axioms :: "config \<Rightarrow> search_state \<Rightarrow> search_state option" where
  "generate_axioms cfg st =
     fold_option
       (\<lambda>(name, template, vars).
          fold_option (instantiate_axiom name template vars)
            (product_lists (replicate (length vars) (wff_basis cfg))))
       (axiom_templates cfg) st"

definition option_a :: "nat \<Rightarrow> pyproof \<Rightarrow> search_state \<Rightarrow> search_state" where
  "option_a k proof st =
     fold (\<lambda>axiom_proof.
             add_proof k (fst proof @ [hd (fst axiom_proof)], snd proof @ [hd (snd axiom_proof)]))
       (proofs_at_len st 1) st"

definition mp_pair :: "nat \<Rightarrow> pyproof \<Rightarrow> nat \<Rightarrow> nat \<Rightarrow> search_state \<Rightarrow> search_state" where
  "mp_pair k proof i j st =
     (if i = j then st
      else case apply_mp (fst proof ! i) (fst proof ! j) of
             None \<Rightarrow> st
           | Some q \<Rightarrow>
               if q = [] then st
               else add_proof k (fst proof @ [q], snd proof @ [mp_just i j]) st)"

definition option_b :: "nat \<Rightarrow> pyproof \<Rightarrow> search_state \<Rightarrow> search_state" where
  "option_b k proof st =
     fold (\<lambda>i. fold (\<lambda>j. mp_pair k proof i j) [0 ..< k - 1]) [0 ..< k - 1] st"

definition extend_proof :: "nat \<Rightarrow> pyproof \<Rightarrow> search_state \<Rightarrow> search_state" where
  "extend_proof k proof st = option_b k proof (option_a k proof st)"

definition build_layer :: "nat \<Rightarrow> search_state \<Rightarrow> search_state" where
  "build_layer k st = fold (extend_proof k) (proofs_at_len st (k - 1)) st"

function search_loop :: "nat \<Rightarrow> nat \<Rightarrow> search_state \<Rightarrow> search_state" where
  "search_loop maxlen k st =
     (if maxlen < k then st
      else if proofs_at_len st (k - 1) = [] then write_line (NoProofsOfLength (k - 1)) st
      else
        let st1 = write_line (GeneratingLength k (length (proofs_at_len st (k - 1))) (k - 1)) st;
            st2 = build_layer k st1;
            st3 = write_line (FoundNewOfLength (length (proofs_at_len st2 k)) k) st2
        in if proofs_at_len st3 k = [] then write_line (NoNewOfLength k) st3
           else search_loop maxlen (Suc k)
                  (st3\<lparr>seen_steps_at_len := (seen_steps_at_len st3)(k - 1 := {})\<rparr>))"
  by pat_completeness auto
termination
  by (relation "measure (\<lambda>(maxlen, k, st). Suc maxlen - k)") auto

declare search_loop.simps [simp del]

section \<open>Minimisation and the final report\<close>

definition uses_mp :: "pyproof \<Rightarrow> bool" where
  "uses_mp proof = list_ex (\<lambda>just. startswith just (str ''MP'')) (snd proof)"

definition consider_proof :: "pyproof \<Rightarrow> (pystr \<times> pyproof) list \<Rightarrow> (pystr \<times> pyproof) list" where
  "consider_proof proof best =
     (let theorem = last (fst proof);
          complexity = get_proof_complexity (fst proof)
      in case map_of best theorem of
           None \<Rightarrow> AList.update theorem proof best
         | Some current_best_proof \<Rightarrow>
             let current_best_complexity = get_proof_complexity (fst current_best_proof)
             in if complexity < current_best_complexity \<or>
                   (complexity = current_best_complexity \<and>
                    length (fst proof) < length (fst current_best_proof))
                then AList.update theorem proof best
                else best)"

definition best_proofs_for_theorem :: "pyproof list \<Rightarrow> (pystr \<times> pyproof) list" where
  "best_proofs_for_theorem proofs_with_mp = fold consider_proof proofs_with_mp []"

definition final_proofs :: "(pystr \<times> pyproof) list \<Rightarrow> pyproof list" where
  "final_proofs best = sort_key (\<lambda>p. (length (fst p), last (fst p))) (map snd best)"

record search_result = search_state +
  all_proofs :: "pyproof list"
  proofs_with_mp :: "pyproof list"
  best_proofs :: "(pystr \<times> pyproof) list"
  reported :: "pyproof list"

definition print_all :: "pyproof list \<Rightarrow> report_line list" where
  "print_all ps =
     concat (map (\<lambda>(steps, justs).
        case print_proof steps justs of None \<Rightarrow> [] | Some text \<Rightarrow> [PrintedProof text]) ps)"

text \<open>Step 3 of \<open>find_all_proofs\<close>, from the state in which the search ended: collect
  the proofs of length 3 and more, keep those that use Modus Ponens, choose the simplest
  proof of each theorem and print the chosen proofs in order.\<close>

definition collect_and_print :: "nat \<Rightarrow> search_state \<Rightarrow> search_result" where
  "collect_and_print maxlen st3 =
     (let all = concat (map (proofs_at_len st3) [3 ..< maxlen + 1]);
          st4 = write_line (FoundTotal (total_proof_count st3)) st3;
          with_mp = filter uses_mp all;
          st5 = write_line (FoundWithMP (length with_mp)) st4
      in if with_mp = [] then
           search_state.extend (write_line NoProofsWithMP st5)
             \<lparr>all_proofs = all, proofs_with_mp = with_mp, best_proofs = [], reported = []\<rparr>
         else
           let best = best_proofs_for_theorem with_mp;
               st6 = write_line (FilteringDown (length best)) st5;
               final = final_proofs best
           in search_state.extend (st6\<lparr>written := written st6 @ print_all final\<rparr>)
                \<lparr>all_proofs = all, proofs_with_mp = with_mp, best_proofs = best,
                 reported = final\<rparr>)"

definition find_all_proofs :: "config \<Rightarrow> search_result option" where
  "find_all_proofs cfg =
     (let st0 = write_line (UsingBasis (length (wff_basis cfg)) (wff_basis cfg))
                  (write_line GeneratingAxioms initial_state)
      in case generate_axioms cfg st0 of
           None \<Rightarrow> None
         | Some st1 \<Rightarrow>
             let st2 = write_line (SearchingUpTo (max_length cfg))
                         (write_line (FoundLength1 (length (proofs_at_len st1 1))) st1);
                 st3 = write_line SearchComplete (search_loop (max_length cfg) 2 st2)
             in Some (collect_and_print (max_length cfg) st3))"

section \<open>The layers as lists of candidates\<close>

text \<open>
  The search only ever appends to a layer through \<open>add_proof\<close>. So a layer is the list
  of the candidates offered to it, in the order of the loops, without those whose step
  sequence was offered before: \<open>add_new\<close>, with the set of the sequences seen so far.
\<close>

fun add_new :: "pystr list set \<Rightarrow> pyproof list \<Rightarrow> pyproof list" where
  "add_new seen [] = []"
| "add_new seen (p # ps) =
     (if fst p \<in> seen then add_new seen ps else p # add_new (insert (fst p) seen) ps)"

text \<open>The candidates that Option A and Option B offer for one proof of the previous
  layer, in the order of the loops.\<close>

definition axiom_candidates :: "pyproof list \<Rightarrow> pyproof \<Rightarrow> pyproof list" where
  "axiom_candidates axioms prf =
     map (\<lambda>axiom_proof. (fst prf @ [hd (fst axiom_proof)], snd prf @ [hd (snd axiom_proof)]))
       axioms"

definition mp_candidates :: "pyproof \<Rightarrow> nat \<Rightarrow> nat \<Rightarrow> pyproof list" where
  "mp_candidates prf i j =
     (if i = j then []
      else case apply_mp (fst prf ! i) (fst prf ! j) of
             None \<Rightarrow> []
           | Some q \<Rightarrow> if q = [] then [] else [(fst prf @ [q], snd prf @ [mp_just i j])])"

definition proof_candidates :: "nat \<Rightarrow> pyproof list \<Rightarrow> pyproof \<Rightarrow> pyproof list" where
  "proof_candidates k axioms prf =
     axiom_candidates axioms prf
     @ concat (map (\<lambda>i. concat (map (\<lambda>j. mp_candidates prf i j) [0 ..< k - 1])) [0 ..< k - 1])"

definition layer_of :: "nat \<Rightarrow> pyproof list \<Rightarrow> pyproof list \<Rightarrow> pyproof list" where
  "layer_of k axioms prev = add_new {} (concat (map (proof_candidates k axioms) prev))"

section \<open>The invariant of the search loop\<close>

text \<open>
  \<open>loop_inv maxlen k st\<close> holds when the loop is about to run its body for \<open>k\<close>:
  the layers below \<open>k\<close> are built, each from the one before it, the layers from \<open>k\<close>
  on are untouched, the counter is the number of the proofs in the layers, and the
  report has one line for each layer built and no notice of an early stop.
  \<open>search_done maxlen st\<close> describes the state in which the loop ends.
\<close>

definition loop_inv :: "nat \<Rightarrow> nat \<Rightarrow> search_state \<Rightarrow> bool" where
  "loop_inv maxlen k st \<longleftrightarrow>
     2 \<le> k \<and> k \<le> Suc (max 1 maxlen) \<and>
     proofs_at_len st 0 = [] \<and>
     (\<forall>k'\<ge>k. proofs_at_len st k' = [] \<and> seen_steps_at_len st k' = {}) \<and>
     (\<forall>k'. 2 \<le> k' \<and> k' < k \<longrightarrow>
        proofs_at_len st k' = layer_of k' (proofs_at_len st 1) (proofs_at_len st (k' - 1))) \<and>
     (2 < k \<longrightarrow> (\<forall>k'. 1 \<le> k' \<and> k' < k \<longrightarrow> proofs_at_len st k' \<noteq> [])) \<and>
     total_proof_count st = (\<Sum>k' < k. length (proofs_at_len st k')) \<and>
     (\<forall>n k'. FoundNewOfLength n k' \<in> set (written st) \<longleftrightarrow>
        2 \<le> k' \<and> k' < k \<and> n = length (proofs_at_len st k')) \<and>
     (\<forall>m. NoProofsOfLength m \<notin> set (written st)) \<and>
     (\<forall>m. NoNewOfLength m \<notin> set (written st))"

definition search_done :: "nat \<Rightarrow> 'a search_state_scheme \<Rightarrow> bool" where
  "search_done maxlen st \<longleftrightarrow>
     proofs_at_len st 0 = [] \<and>
     (\<forall>k. 2 \<le> k \<and> proofs_at_len st k \<noteq> [] \<longrightarrow> k \<le> maxlen \<and> proofs_at_len st (k - 1) \<noteq> []) \<and>
     (\<forall>k. 2 \<le> k \<and> k \<le> maxlen \<and> proofs_at_len st (k - 1) \<noteq> [] \<longrightarrow>
        proofs_at_len st k = layer_of k (proofs_at_len st 1) (proofs_at_len st (k - 1))) \<and>
     total_proof_count st = (\<Sum>k < Suc (max 1 maxlen). length (proofs_at_len st k)) \<and>
     (\<forall>n k. FoundNewOfLength n k \<in> set (written st) \<longleftrightarrow>
        2 \<le> k \<and> k \<le> maxlen \<and> (\<forall>k'. 1 \<le> k' \<and> k' < k \<longrightarrow> proofs_at_len st k' \<noteq> [])
        \<and> n = length (proofs_at_len st k)) \<and>
     (\<forall>m. NoProofsOfLength m \<in> set (written st) \<longleftrightarrow>
        m = 1 \<and> 2 \<le> maxlen \<and> proofs_at_len st 1 = []) \<and>
     (\<forall>k. NoNewOfLength k \<in> set (written st) \<longleftrightarrow>
        2 \<le> k \<and> k \<le> maxlen \<and> (\<forall>k'. 1 \<le> k' \<and> k' < k \<longrightarrow> proofs_at_len st k' \<noteq> [])
        \<and> proofs_at_len st k = [])"

text \<open>The body of the loop up to the line that reports the size of the new layer.\<close>

definition after_build :: "nat \<Rightarrow> search_state \<Rightarrow> search_state" where
  "after_build k st =
     (let st1 = write_line (GeneratingLength k (length (proofs_at_len st (k - 1))) (k - 1)) st;
          st2 = build_layer k st1
      in write_line (FoundNewOfLength (length (proofs_at_len st2 k)) k) st2)"

section \<open>The axiom instances and the state in which the loop starts\<close>

text \<open>The length-1 proofs that Step 1 offers to layer 1, in the order of its loops;
  \<open>None\<close> when a substitution is outside the model.\<close>

definition axiom_instance :: "pystr \<Rightarrow> pystr \<Rightarrow> pystr list \<Rightarrow> pystr list \<Rightarrow> pyproof option" where
  "axiom_instance name template vars combo =
     (let sub_dict = dict_zip vars combo
      in map_option (\<lambda>formula. ([formula], [axiom_just name sub_dict]))
           (substitute template sub_dict))"

definition axiom_instances :: "config \<Rightarrow> pyproof list option" where
  "axiom_instances cfg =
     map_option concat
       (those (map (\<lambda>(name, template, vars).
                 those (map (axiom_instance name template vars)
                   (product_lists (replicate (length vars) (wff_basis cfg)))))
          (axiom_templates cfg)))"

text \<open>The state after Step 1 and the two lines written before the loop, given the
  instances offered.\<close>

definition loop_start :: "config \<Rightarrow> pyproof list \<Rightarrow> search_state" where
  "loop_start cfg insts =
     (let st1 = fold (add_proof 1) insts
                  (write_line (UsingBasis (length (wff_basis cfg)) (wff_basis cfg))
                     (write_line GeneratingAxioms initial_state))
      in write_line (SearchingUpTo (max_length cfg))
           (write_line (FoundLength1 (length (proofs_at_len st1 1))) st1))"

section \<open>A small configuration\<close>

text \<open>The three templates with the basis of the single formula \<open>a\<close> and proofs of up
  to three steps, and its three axiom instances.\<close>

definition small_config :: config where
  "small_config = \<lparr>max_length = 3, wff_basis = [str ''a''], axiom_templates = AXIOM_TEMPLATES\<rparr>"

definition A1_aa :: pyproof where
  "A1_aa = ([str ''(a '' @ [ARROW] @ str '' (a '' @ [ARROW] @ str '' a))''], [str ''A1 [A=a, B=a]''])"

definition A2_aaa :: pyproof where
  "A2_aaa = ([str ''((a '' @ [ARROW] @ str '' (a '' @ [ARROW] @ str '' a)) '' @ [ARROW]
     @ str '' ((a '' @ [ARROW] @ str '' a) '' @ [ARROW] @ str '' (a '' @ [ARROW] @ str '' a)))''],
     [str ''A2 [A=a, B=a, C=a]''])"

definition A3_aa :: pyproof where
  "A3_aa = ([str ''(('' @ [NEG] @ str ''a '' @ [ARROW] @ str '' '' @ [NEG] @ str ''a) '' @ [ARROW]
     @ str '' (a '' @ [ARROW] @ str '' a))''], [str ''A3 [A=a, B=a]''])"

text \<open>What \<open>find_all_proofs\<close> returns for the small configuration.\<close>

definition small_result :: search_result where
  "small_result = the (find_all_proofs small_config)"

text \<open>The lines that the search loop writes.\<close>

definition loop_line :: "report_line \<Rightarrow> bool" where
  "loop_line l = (case l of
      NoProofsOfLength m \<Rightarrow> True
    | GeneratingLength k n m \<Rightarrow> True
    | FoundNewOfLength n k \<Rightarrow> True
    | NoNewOfLength k \<Rightarrow> True
    | _ \<Rightarrow> False)"

section \<open>Formulas without a blank before a closing parenthesis\<close>

text \<open>\<open>blank_close s\<close>: the text \<open>s\<close> has a blank that is followed by a closing
  parenthesis. No formula built from the templates and well-formed formulas has one, and
  only from a formula that has one can Modus Ponens return the empty string.\<close>

fun blank_close :: "pystr \<Rightarrow> bool" where
  "blank_close [] = False"
| "blank_close [a] = False"
| "blank_close (a # b # cs) = ((a = 32 \<and> b = 41) \<or> blank_close (b # cs))"

definition tidy_axioms :: "config \<Rightarrow> bool" where
  "tidy_axioms cfg =
     (case axiom_instances cfg of
        None \<Rightarrow> False
      | Some insts \<Rightarrow> list_all (\<lambda>p. list_all (\<lambda>formula. \<not> blank_close formula) (fst p)) insts)"

text \<open>In the small configuration, Modus Ponens applies to the first two axiom
  instances.\<close>

definition mp_consequent :: pystr where
  "mp_consequent =
     str ''((a '' @ [ARROW] @ str '' a) '' @ [ARROW] @ str '' (a '' @ [ARROW] @ str '' a))''"

definition small_mp_proof :: pyproof where
  "small_mp_proof =
     (fst A1_aa @ fst A2_aaa @ [mp_consequent],
      [str ''A1 [A=a, B=a]'', str ''A2 [A=a, B=a, C=a]'', str ''MP (1,2)''])"

section \<open>Justified steps\<close>

text \<open>\<open>decimal_of s n\<close>: the text \<open>s\<close> is the decimal numeral of \<open>n\<close>, digits without a
  leading zero.\<close>

definition decimal_of :: "pystr \<Rightarrow> nat \<Rightarrow> bool" where
  "decimal_of s n \<longleftrightarrow>
     s \<noteq> [] \<and> list_all (\<lambda>c. 48 \<le> c \<and> c \<le> 57) s \<and> (1 < length s \<longrightarrow> hd s \<noteq> 48) \<and>
     foldl (\<lambda>acc c. 10 * acc + (c - 48)) 0 s = n"

text \<open>A step with its justification is an axiom step when the formula is the
  substitution of a template of the configuration under an assignment of basis formulas
  to its variables and the justification is the text \<open>name [v1=w1, v2=w2, \<dots>]\<close> of the
  template's name and this assignment. Step \<open>n\<close> of a proof is a Modus Ponens step when
  it is what \<open>apply_mp\<close> returns for two earlier steps at different positions \<open>i\<close> and
  \<open>j\<close> and the justification is the text \<open>MP (i+1,j+1)\<close>.\<close>

definition axiom_step :: "config \<Rightarrow> pystr \<Rightarrow> pystr \<Rightarrow> bool" where
  "axiom_step cfg formula just \<longleftrightarrow>
     (\<exists>(name, template, vars)\<in>set (axiom_templates cfg).
        \<exists>combo\<in>set (product_lists (replicate (length vars) (wff_basis cfg))).
          substitute template (dict_zip vars combo) = Some formula \<and>
          just = name @ str '' [''
                 @ join (str '', '') (map (\<lambda>(k, v). k @ str ''='' @ v) (dict_zip vars combo))
                 @ str '']'')"

definition mp_step :: "pystr list \<Rightarrow> pystr list \<Rightarrow> nat \<Rightarrow> bool" where
  "mp_step steps justs n \<longleftrightarrow>
     (\<exists>i<n. \<exists>j<n. i \<noteq> j \<and> apply_mp (steps ! i) (steps ! j) = Some (steps ! n) \<and>
        justs ! n = str ''MP ('' @ str_of_nat (i + 1) @ str '','' @ str_of_nat (j + 1) @ str '')'')"

section \<open>Configurations inside the model\<close>

text \<open>A configuration whose basis formulas, templates and variable names are text of
  the model, with no backslash in a basis formula: then every substitution of Step 1
  is inside the model.\<close>

definition config_modelled :: "config \<Rightarrow> bool" where
  "config_modelled cfg \<longleftrightarrow>
     list_all (\<lambda>w. modelled_text w \<and> BACKSLASH \<notin> set w) (wff_basis cfg) \<and>
     list_all (\<lambda>(name, template, vars). modelled_text template \<and> list_all modelled_text vars)
       (axiom_templates cfg)"





text \<open>The order of the Theorem Minimizer and the invariant of its loop: \<open>best\<close> maps the
  last step of every proof considered so far to one of the simplest proofs of it.\<close>

definition simpler_eq :: "pyproof \<Rightarrow> pyproof \<Rightarrow> bool" where
  "simpler_eq b c \<longleftrightarrow>
     sum_list (map length (fst b)) < sum_list (map length (fst c)) \<or>
     (sum_list (map length (fst b)) = sum_list (map length (fst c)) \<and>
      length (fst b) \<le> length (fst c))"

definition best_inv :: "pyproof list \<Rightarrow> (pystr \<times> pyproof) list \<Rightarrow> bool" where
  "best_inv ps best \<longleftrightarrow>
     distinct (map fst best) \<and>
     (\<forall>t b. map_of best t = Some b \<longrightarrow> b \<in> set ps \<and> last (fst b) = t) \<and>
     (\<forall>c\<in>set ps. \<exists>b. map_of best (last (fst c)) = Some b \<and> simpler_eq b c)"

text \<open>The three templates with the basis of the two formulas \<open>a\<close> and \<open>b\<close> and proofs of
  up to three steps, and its sixteen axiom instances.\<close>

definition two_config :: config where
  "two_config =
     \<lparr>max_length = 3, wff_basis = [str ''a'', str ''b''], axiom_templates = AXIOM_TEMPLATES\<rparr>"

definition two_axioms :: "pyproof list" where
  "two_axioms =
    [([str ''(a '' @ [ARROW] @ str '' (a '' @ [ARROW] @ str '' a))''],
      [str ''A1 [A=a, B=a]'']),
     ([str ''(a '' @ [ARROW] @ str '' (b '' @ [ARROW] @ str '' a))''],
      [str ''A1 [A=a, B=b]'']),
     ([str ''(b '' @ [ARROW] @ str '' (a '' @ [ARROW] @ str '' b))''],
      [str ''A1 [A=b, B=a]'']),
     ([str ''(b '' @ [ARROW] @ str '' (b '' @ [ARROW] @ str '' b))''],
      [str ''A1 [A=b, B=b]'']),
     ([str ''((a '' @ [ARROW] @ str '' (a '' @ [ARROW] @ str '' a)) '' @ [ARROW] @ str '' ((a '' @ [ARROW] @ str '' a) '' @ [ARROW] @ str '' (a '' @ [ARROW] @ str '' a)))''],
      [str ''A2 [A=a, B=a, C=a]'']),
     ([str ''((a '' @ [ARROW] @ str '' (a '' @ [ARROW] @ str '' b)) '' @ [ARROW] @ str '' ((a '' @ [ARROW] @ str '' a) '' @ [ARROW] @ str '' (a '' @ [ARROW] @ str '' b)))''],
      [str ''A2 [A=a, B=a, C=b]'']),
     ([str ''((a '' @ [ARROW] @ str '' (b '' @ [ARROW] @ str '' a)) '' @ [ARROW] @ str '' ((a '' @ [ARROW] @ str '' b) '' @ [ARROW] @ str '' (a '' @ [ARROW] @ str '' a)))''],
      [str ''A2 [A=a, B=b, C=a]'']),
     ([str ''((a '' @ [ARROW] @ str '' (b '' @ [ARROW] @ str '' b)) '' @ [ARROW] @ str '' ((a '' @ [ARROW] @ str '' b) '' @ [ARROW] @ str '' (a '' @ [ARROW] @ str '' b)))''],
      [str ''A2 [A=a, B=b, C=b]'']),
     ([str ''((b '' @ [ARROW] @ str '' (a '' @ [ARROW] @ str '' a)) '' @ [ARROW] @ str '' ((b '' @ [ARROW] @ str '' a) '' @ [ARROW] @ str '' (b '' @ [ARROW] @ str '' a)))''],
      [str ''A2 [A=b, B=a, C=a]'']),
     ([str ''((b '' @ [ARROW] @ str '' (a '' @ [ARROW] @ str '' b)) '' @ [ARROW] @ str '' ((b '' @ [ARROW] @ str '' a) '' @ [ARROW] @ str '' (b '' @ [ARROW] @ str '' b)))''],
      [str ''A2 [A=b, B=a, C=b]'']),
     ([str ''((b '' @ [ARROW] @ str '' (b '' @ [ARROW] @ str '' a)) '' @ [ARROW] @ str '' ((b '' @ [ARROW] @ str '' b) '' @ [ARROW] @ str '' (b '' @ [ARROW] @ str '' a)))''],
      [str ''A2 [A=b, B=b, C=a]'']),
     ([str ''((b '' @ [ARROW] @ str '' (b '' @ [ARROW] @ str '' b)) '' @ [ARROW] @ str '' ((b '' @ [ARROW] @ str '' b) '' @ [ARROW] @ str '' (b '' @ [ARROW] @ str '' b)))''],
      [str ''A2 [A=b, B=b, C=b]'']),
     ([str ''(('' @ [NEG] @ str ''a '' @ [ARROW] @ str '' '' @ [NEG] @ str ''a) '' @ [ARROW] @ str '' (a '' @ [ARROW] @ str '' a))''],
      [str ''A3 [A=a, B=a]'']),
     ([str ''(('' @ [NEG] @ str ''b '' @ [ARROW] @ str '' '' @ [NEG] @ str ''a) '' @ [ARROW] @ str '' (a '' @ [ARROW] @ str '' b))''],
      [str ''A3 [A=a, B=b]'']),
     ([str ''(('' @ [NEG] @ str ''a '' @ [ARROW] @ str '' '' @ [NEG] @ str ''b) '' @ [ARROW] @ str '' (b '' @ [ARROW] @ str '' a))''],
      [str ''A3 [A=b, B=a]'']),
     ([str ''(('' @ [NEG] @ str ''b '' @ [ARROW] @ str '' '' @ [NEG] @ str ''b) '' @ [ARROW] @ str '' (b '' @ [ARROW] @ str '' b))''],
      [str ''A3 [A=b, B=b]''])]"

definition two_result :: search_result where
  "two_result = the (find_all_proofs two_config)"

definition A1_ab :: pyproof where
  "A1_ab = ([str ''(a '' @ [ARROW] @ str '' (b '' @ [ARROW] @ str '' a))''], [str ''A1 [A=a, B=b]''])"

definition A2_aba :: pyproof where
  "A2_aba = ([str ''((a '' @ [ARROW] @ str '' (b '' @ [ARROW] @ str '' a)) '' @ [ARROW] @ str '' ((a '' @ [ARROW] @ str '' b) '' @ [ARROW] @ str '' (a '' @ [ARROW] @ str '' a)))''],
     [str ''A2 [A=a, B=b, C=a]''])"

definition mp_consequent_ab :: pystr where
  "mp_consequent_ab = str ''((a '' @ [ARROW] @ str '' b) '' @ [ARROW] @ str '' (a '' @ [ARROW] @ str '' a))''"

section \<open>Tokens\<close>

text \<open>The tokens of a text: a maximal run of word characters is one token, an
  identifier or a number, and every other character is a token of its own.\<close>

function tokens :: "pystr \<Rightarrow> pystr list" where
  "tokens [] = []"
| "tokens (c # cs) =
     (if is_word_char c
      then (c # takeWhile is_word_char cs) # tokens (dropWhile is_word_char cs)
      else [c] # tokens cs)"
  by pat_completeness auto
termination
  by (relation "measure length") (auto simp: length_dropWhile_le less_Suc_eq_le)

text \<open>What the specification asks of one substitution: every token that is the variable
  is replaced, and nothing else.\<close>

definition replace_tokens :: "pystr \<Rightarrow> pystr \<Rightarrow> pystr \<Rightarrow> pystr" where
  "replace_tokens var repl s = concat (map (\<lambda>t. if t = var then repl else t) (tokens s))"

definition has_token :: "pystr \<Rightarrow> pystr \<Rightarrow> bool" where
  "has_token var s = (var \<in> set (tokens s))"

text \<open>A ground formula: a text of ASCII characters other than the backslash, negation
  signs and arrows, in which none of the schema variables \<open>A\<close>, \<open>B\<close>, \<open>C\<close> is a token.\<close>

definition ground :: "pystr \<Rightarrow> bool" where
  "ground w \<longleftrightarrow>
     list_all (\<lambda>c. (c < 128 \<and> c \<noteq> 92) \<or> c = 172 \<or> c = 8594) w \<and>
     \<not> has_token (str ''A'') w \<and> \<not> has_token (str ''B'') w \<and> \<not> has_token (str ''C'') w"


section \<open>Properties of Modus Ponens\<close>

lemma startswith_append [simp]: "startswith (pre @ r) pre"
  by (simp add: startswith_def)

lemma endswith_append [simp]: "endswith (r @ suf) suf"
  by (simp add: endswith_def)

lemma apply_mp_match:
  "apply_mp p (expected_form p @ q @ str '')'') = Some q"
proof -
  have "startswith (expected_form p @ q @ str '')'') (expected_form p)"
    by simp
  moreover have "endswith ((expected_form p @ q) @ str '')'') (str '')'')"
    by (rule endswith_append)
  moreover have "slice_from_to_last (expected_form p @ q @ str '')'')
      (length (expected_form p)) = q"
    by (simp add: slice_from_to_last_def str_def butlast_append)
  ultimately show ?thesis
    by (simp add: apply_mp_def)
qed

text \<open>
  C1. For all formulas \<open>p\<close> and \<open>q\<close>, Modus Ponens applied to \<open>p\<close> and the text
  \<open>(p \<rightarrow> q)\<close> returns exactly \<open>q\<close>; applied to a second formula that does not both
  start with the prefix \<open>(p \<rightarrow> \<close> and end with \<open>)\<close> it returns None, the ordinary
  negative result.
\<close>

theorem apply_mp_spec:
  "apply_mp p (str ''('' @ p @ str '' '' @ [ARROW] @ str '' '' @ q @ str '')'') = Some q
   \<and> (\<not> (startswith s (str ''('' @ p @ str '' '' @ [ARROW] @ str '' '')
           \<and> endswith s (str '')''))
        \<longrightarrow> apply_mp p s = None)"
proof
  show "apply_mp p (str ''('' @ p @ str '' '' @ [ARROW] @ str '' '' @ q @ str '')'') = Some q"
    using apply_mp_match [of p q] by (simp add: expected_form_def)
next
  show "\<not> (startswith s (str ''('' @ p @ str '' '' @ [ARROW] @ str '' '')
           \<and> endswith s (str '')''))
        \<longrightarrow> apply_mp p s = None"
    by (simp add: apply_mp_def expected_form_def)
qed

theorem apply_mp_spec_witness:
  "apply_mp (str ''a'') (str ''(a '' @ [ARROW] @ str '' b)'') = Some (str ''b'')
   \<and> apply_mp (str ''a'') (str ''(b '' @ [ARROW] @ str '' a)'') = None"
  using apply_mp_spec [of "str ''a''" "str ''b''" "str ''(b '' @ [ARROW] @ str '' a)''"]
  by (simp add: startswith_def endswith_def str_def)

section \<open>The loops as folds of \<open>add_proof\<close>\<close>

lemma add_proof_written [simp]: "written (add_proof k p st) = written st"
  by (simp add: add_proof_def)

lemma fold_add_proof:
  "fold (add_proof k) cs st =
     st\<lparr>proofs_at_len := (proofs_at_len st)(k := proofs_at_len st k @ add_new (seen_steps_at_len st k) cs),
        seen_steps_at_len := (seen_steps_at_len st)(k := seen_steps_at_len st k \<union> fst ` set cs),
        total_proof_count := total_proof_count st + length (add_new (seen_steps_at_len st k) cs)\<rparr>"
proof (induction cs arbitrary: st)
  case Nil
  show ?case by simp
next
  case (Cons c cs)
  show ?case
  proof (cases "fst c \<in> seen_steps_at_len st k")
    case True
    then have "add_proof k c st = st" by (simp add: add_proof_def)
    then show ?thesis using Cons.IH [of st] True by (simp add: insert_absorb)
  next
    case False
    define st' where "st' = add_proof k c st"
    have 5: "st' = st\<lparr>proofs_at_len := (proofs_at_len st)(k := proofs_at_len st k @ [c]),
              seen_steps_at_len :=
                (seen_steps_at_len st)(k := insert (fst c) (seen_steps_at_len st k)),
              total_proof_count := total_proof_count st + 1\<rparr>"
      using False by (simp add: st'_def add_proof_def)
    have "fold (add_proof k) (c # cs) st = fold (add_proof k) cs st'"
      by (simp add: st'_def)
    also have "\<dots> = st'\<lparr>proofs_at_len := (proofs_at_len st')(k := proofs_at_len st' k @ add_new (seen_steps_at_len st' k) cs),
        seen_steps_at_len := (seen_steps_at_len st')(k := seen_steps_at_len st' k \<union> fst ` set cs),
        total_proof_count := total_proof_count st' + length (add_new (seen_steps_at_len st' k) cs)\<rparr>"
      by (rule Cons.IH)
    also have "\<dots> = st\<lparr>proofs_at_len := (proofs_at_len st)(k := proofs_at_len st k @ add_new (seen_steps_at_len st k) (c # cs)),
        seen_steps_at_len := (seen_steps_at_len st)(k := seen_steps_at_len st k \<union> fst ` set (c # cs)),
        total_proof_count := total_proof_count st + length (add_new (seen_steps_at_len st k) (c # cs))\<rparr>"
      by (simp add: 5 False)
    finally show ?thesis .
  qed
qed

lemma mp_pair_fold: "mp_pair k prf i j st = fold (add_proof k) (mp_candidates prf i j) st"
  by (simp add: mp_pair_def mp_candidates_def split: option.splits)

lemma fold_fold_concat:
  "(\<And>x st. f x st = fold g (h x) st) \<Longrightarrow> fold f xs st = fold g (concat (map h xs)) st"
  by (induction xs arbitrary: st) simp_all

lemma option_b_fold:
  "option_b k prf st =
     fold (add_proof k)
       (concat (map (\<lambda>i. concat (map (\<lambda>j. mp_candidates prf i j) [0 ..< k - 1])) [0 ..< k - 1])) st"
  unfolding option_b_def
  by (rule fold_fold_concat) (rule fold_fold_concat, rule mp_pair_fold)

lemma option_a_fold:
  "option_a k prf st = fold (add_proof k) (axiom_candidates (proofs_at_len st 1) prf) st"
  by (simp add: option_a_def axiom_candidates_def fold_map comp_def)

lemma proofs_at_len_fold_other:
  "k' \<noteq> k \<Longrightarrow> proofs_at_len (fold (add_proof k) cs st) k' = proofs_at_len st k'"
  by (simp add: fold_add_proof)

lemma extend_proof_fold:
  "extend_proof k prf st = fold (add_proof k) (proof_candidates k (proofs_at_len st 1) prf) st"
  by (simp add: extend_proof_def option_b_fold option_a_fold proof_candidates_def)

lemma fold_extend_proof:
  "k \<noteq> 1 \<Longrightarrow> proofs_at_len st 1 = axioms \<Longrightarrow>
   fold (extend_proof k) ps st = fold (add_proof k) (concat (map (proof_candidates k axioms) ps)) st"
proof (induction ps arbitrary: st)
  case Nil
  show ?case by simp
next
  case (Cons p ps)
  have "proofs_at_len (extend_proof k p st) 1 = axioms"
    using Cons.prems by (simp add: extend_proof_fold proofs_at_len_fold_other)
  then show ?case
    using Cons.IH [of "extend_proof k p st"] Cons.prems
    by (simp add: extend_proof_fold)
qed

lemma build_layer_fold:
  "k \<noteq> 1 \<Longrightarrow>
   build_layer k st =
     fold (add_proof k)
       (concat (map (proof_candidates k (proofs_at_len st 1)) (proofs_at_len st (k - 1)))) st"
  by (simp add: build_layer_def fold_extend_proof)

section \<open>The search loop establishes \<open>search_done\<close>\<close>

lemma write_line_simps [simp]:
  "proofs_at_len (write_line l st) = proofs_at_len st"
  "seen_steps_at_len (write_line l st) = seen_steps_at_len st"
  "total_proof_count (write_line l st) = total_proof_count st"
  "written (write_line l st) = written st @ [l]"
  by (simp_all add: write_line_def)

lemma build_layer_effect:
  assumes "k \<noteq> 1" "proofs_at_len st k = []" "seen_steps_at_len st k = {}"
  shows "proofs_at_len (build_layer k st) =
           (proofs_at_len st)(k := layer_of k (proofs_at_len st 1) (proofs_at_len st (k - 1)))"
    and "total_proof_count (build_layer k st) =
           total_proof_count st + length (layer_of k (proofs_at_len st 1) (proofs_at_len st (k - 1)))"
    and "written (build_layer k st) = written st"
    and "\<And>k'. k' \<noteq> k \<Longrightarrow> seen_steps_at_len (build_layer k st) k' = seen_steps_at_len st k'"
  using assms by (simp_all add: build_layer_fold fold_add_proof layer_of_def)

lemma sum_lengths_extend:
  fixes f :: "nat \<Rightarrow> nat"
  assumes "k \<le> n" "\<forall>k'\<ge>k. f k' = 0"
  shows "(\<Sum>k' < n. f k') = (\<Sum>k' < k. f k')"
proof -
  have "(\<Sum>k' < k. f k') = (\<Sum>k' < n. f k')"
    by (rule sum.mono_neutral_left) (use assms in auto)
  then show ?thesis by simp
qed

lemma loop_inv_stop:
  assumes inv: "loop_inv maxlen k st"
    and stop: "maxlen < k"
  shows "search_done maxlen st"
proof -
  let ?L = "proofs_at_len st"
  from inv have k: "2 \<le> k" "k \<le> Suc (max 1 maxlen)"
    and L0: "?L 0 = []"
    and above: "\<And>k'. k \<le> k' \<Longrightarrow> ?L k' = []"
    and built: "\<And>k'. 2 \<le> k' \<Longrightarrow> k' < k \<Longrightarrow> ?L k' = layer_of k' (?L 1) (?L (k' - 1))"
    and nonempty: "\<And>k'. 2 < k \<Longrightarrow> 1 \<le> k' \<Longrightarrow> k' < k \<Longrightarrow> ?L k' \<noteq> []"
    and count: "total_proof_count st = (\<Sum>k' < k. length (?L k'))"
    and found: "\<And>n k'. FoundNewOfLength n k' \<in> set (written st) \<longleftrightarrow>
        2 \<le> k' \<and> k' < k \<and> n = length (?L k')"
    and no1: "\<And>m. NoProofsOfLength m \<notin> set (written st)"
    and no2: "\<And>m. NoNewOfLength m \<notin> set (written st)"
    by (simp_all add: loop_inv_def)
  have keq: "k = Suc maxlen \<or> (k = 2 \<and> maxlen < 2)"
    using k stop by (auto simp: max_def split: if_splits)
  have a: "\<forall>k'. 2 \<le> k' \<and> ?L k' \<noteq> [] \<longrightarrow> k' \<le> maxlen \<and> ?L (k' - 1) \<noteq> []"
  proof (intro allI impI)
    fix k' assume h: "2 \<le> k' \<and> ?L k' \<noteq> []"
    then have lt: "k' < k" using above [of k'] by (cases "k \<le> k'") auto
    with h have "2 < k" "1 \<le> k' - 1" "k' - 1 < k" by arith+
    then have "?L (k' - 1) \<noteq> []" by (rule nonempty)
    moreover have "k' \<le> maxlen" using keq lt h by arith
    ultimately show "k' \<le> maxlen \<and> ?L (k' - 1) \<noteq> []" by simp
  qed
  have b: "\<forall>k'. 2 \<le> k' \<and> k' \<le> maxlen \<and> ?L (k' - 1) \<noteq> [] \<longrightarrow>
        ?L k' = layer_of k' (?L 1) (?L (k' - 1))"
    using built stop by auto
  have c: "total_proof_count st = (\<Sum>k' < Suc (max 1 maxlen). length (?L k'))"
    unfolding count
    by (rule sum_lengths_extend [symmetric]) (use k above in auto)
  have d: "\<forall>n k'. FoundNewOfLength n k' \<in> set (written st) \<longleftrightarrow>
        2 \<le> k' \<and> k' \<le> maxlen \<and> (\<forall>k''. 1 \<le> k'' \<and> k'' < k' \<longrightarrow> ?L k'' \<noteq> [])
        \<and> n = length (?L k')"
  proof (intro allI)
    fix n k'
    show "FoundNewOfLength n k' \<in> set (written st) \<longleftrightarrow>
        2 \<le> k' \<and> k' \<le> maxlen \<and> (\<forall>k''. 1 \<le> k'' \<and> k'' < k' \<longrightarrow> ?L k'' \<noteq> [])
        \<and> n = length (?L k')"
      unfolding found using keq nonempty by auto
  qed
  have e: "\<forall>m. NoProofsOfLength m \<in> set (written st) \<longleftrightarrow>
        m = 1 \<and> 2 \<le> maxlen \<and> ?L 1 = []"
    using no1 keq nonempty [of 1] by auto
  have f: "\<forall>k'. NoNewOfLength k' \<in> set (written st) \<longleftrightarrow>
        2 \<le> k' \<and> k' \<le> maxlen \<and> (\<forall>k''. 1 \<le> k'' \<and> k'' < k' \<longrightarrow> ?L k'' \<noteq> [])
        \<and> ?L k' = []"
  proof (intro allI)
    fix k'
    have "\<not> (2 \<le> k' \<and> k' \<le> maxlen \<and> ?L k' = [])"
      using keq nonempty [of k'] by auto
    then show "NoNewOfLength k' \<in> set (written st) \<longleftrightarrow>
        2 \<le> k' \<and> k' \<le> maxlen \<and> (\<forall>k''. 1 \<le> k'' \<and> k'' < k' \<longrightarrow> ?L k'' \<noteq> [])
        \<and> ?L k' = []"
      using no2 by blast
  qed
  show ?thesis
    unfolding search_done_def using L0 a b c d e f by blast
qed


lemma search_loop_unfold:
  "search_loop maxlen k st =
     (if maxlen < k then st
      else if proofs_at_len st (k - 1) = [] then write_line (NoProofsOfLength (k - 1)) st
      else if proofs_at_len (after_build k st) k = [] then write_line (NoNewOfLength k) (after_build k st)
      else search_loop maxlen (Suc k)
             ((after_build k st)\<lparr>seen_steps_at_len :=
                (seen_steps_at_len (after_build k st))(k - 1 := {})\<rparr>))"
  by (subst search_loop.simps) (simp add: after_build_def Let_def)

lemma after_build_effect:
  assumes "k \<noteq> 1" "proofs_at_len st k = []" "seen_steps_at_len st k = {}"
  shows "proofs_at_len (after_build k st) =
           (proofs_at_len st)(k := layer_of k (proofs_at_len st 1) (proofs_at_len st (k - 1)))"
    and "total_proof_count (after_build k st) =
           total_proof_count st + length (layer_of k (proofs_at_len st 1) (proofs_at_len st (k - 1)))"
    and "written (after_build k st) =
           written st @ [GeneratingLength k (length (proofs_at_len st (k - 1))) (k - 1),
             FoundNewOfLength (length (layer_of k (proofs_at_len st 1) (proofs_at_len st (k - 1)))) k]"
    and "\<And>k'. k' \<noteq> k \<Longrightarrow> seen_steps_at_len (after_build k st) k' = seen_steps_at_len st k'"
  using assms by (simp_all add: after_build_def Let_def build_layer_effect)

lemma loop_inv_empty_prev:
  assumes inv: "loop_inv maxlen k st"
    and le: "k \<le> maxlen"
    and empty: "proofs_at_len st (k - 1) = []"
  shows "search_done maxlen (write_line (NoProofsOfLength (k - 1)) st)"
proof -
  let ?L = "proofs_at_len st"
  from inv have k: "2 \<le> k"
    and L0: "?L 0 = []"
    and above: "\<And>k'. k \<le> k' \<Longrightarrow> ?L k' = []"
    and nonempty: "\<And>k'. 2 < k \<Longrightarrow> 1 \<le> k' \<Longrightarrow> k' < k \<Longrightarrow> ?L k' \<noteq> []"
    and count: "total_proof_count st = (\<Sum>k' < k. length (?L k'))"
    and found: "\<And>n k'. FoundNewOfLength n k' \<in> set (written st) \<longleftrightarrow>
        2 \<le> k' \<and> k' < k \<and> n = length (?L k')"
    and no1: "\<And>m. NoProofsOfLength m \<notin> set (written st)"
    and no2: "\<And>m. NoNewOfLength m \<notin> set (written st)"
    by (simp_all add: loop_inv_def)
  have k2: "k = 2"
  proof (rule ccontr)
    assume "k \<noteq> 2"
    with k have "2 < k" "1 \<le> k - 1" "k - 1 < k" by arith+
    then have "?L (k - 1) \<noteq> []" by (rule nonempty)
    with empty show False by simp
  qed
  have L1: "?L 1 = []" using empty k2 by simp
  have all_empty: "?L k' = []" for k'
  proof -
    have "k' = 0 \<or> k' = 1 \<or> k \<le> k'" using k2 by arith
    then show ?thesis using L0 L1 above by auto
  qed
  have c: "total_proof_count st = (\<Sum>k' < Suc (max 1 maxlen). length (?L k'))"
    unfolding count by (simp add: all_empty)
  have d: "FoundNewOfLength n k' \<notin> set (written st)" for n k'
    using found [of n k'] k2 by simp
  show ?thesis
    unfolding search_done_def
    using c d no1 no2 le k2 L1 by (auto simp: all_empty)
qed


lemma loop_inv_after_build:
  assumes inv: "loop_inv maxlen k st"
    and le: "k \<le> maxlen"
    and prev: "proofs_at_len st (k - 1) \<noteq> []"
  defines "st3 \<equiv> after_build k st"
  shows "proofs_at_len st3 0 = []"
    and "\<And>k'. Suc k \<le> k' \<Longrightarrow> proofs_at_len st3 k' = [] \<and> seen_steps_at_len st3 k' = {}"
    and "\<And>k'. 2 \<le> k' \<Longrightarrow> k' < Suc k \<Longrightarrow>
           proofs_at_len st3 k' = layer_of k' (proofs_at_len st3 1) (proofs_at_len st3 (k' - 1))"
    and "\<And>k'. 1 \<le> k' \<Longrightarrow> k' < k \<Longrightarrow> proofs_at_len st3 k' \<noteq> []"
    and "total_proof_count st3 = (\<Sum>k' < Suc k. length (proofs_at_len st3 k'))"
    and "\<And>n k'. FoundNewOfLength n k' \<in> set (written st3) \<longleftrightarrow>
           2 \<le> k' \<and> k' < Suc k \<and> n = length (proofs_at_len st3 k')"
    and "\<And>m. NoProofsOfLength m \<notin> set (written st3)"
    and "\<And>m. NoNewOfLength m \<notin> set (written st3)"
proof -
  let ?L = "proofs_at_len st"
  let ?new = "layer_of k (?L 1) (?L (k - 1))"
  from inv have k: "2 \<le> k"
    and L0: "?L 0 = []"
    and above: "\<And>k'. k \<le> k' \<Longrightarrow> ?L k' = [] \<and> seen_steps_at_len st k' = {}"
    and built: "\<And>k'. 2 \<le> k' \<Longrightarrow> k' < k \<Longrightarrow> ?L k' = layer_of k' (?L 1) (?L (k' - 1))"
    and nonempty: "\<And>k'. 2 < k \<Longrightarrow> 1 \<le> k' \<Longrightarrow> k' < k \<Longrightarrow> ?L k' \<noteq> []"
    and count: "total_proof_count st = (\<Sum>k' < k. length (?L k'))"
    and found: "\<And>n k'. FoundNewOfLength n k' \<in> set (written st) \<longleftrightarrow>
        2 \<le> k' \<and> k' < k \<and> n = length (?L k')"
    and no1: "\<And>m. NoProofsOfLength m \<notin> set (written st)"
    and no2: "\<And>m. NoNewOfLength m \<notin> set (written st)"
    by (simp_all add: loop_inv_def)
  have k1: "k \<noteq> 1" using k by simp
  have Lk: "?L k = []" and Sk: "seen_steps_at_len st k = {}" using above [of k] by simp_all
  have L3: "proofs_at_len st3 = ?L(k := ?new)"
    and C3: "total_proof_count st3 = total_proof_count st + length ?new"
    and W3: "written st3 = written st @ [GeneratingLength k (length (?L (k - 1))) (k - 1),
             FoundNewOfLength (length ?new) k]"
    and S3: "\<And>k'. k' \<noteq> k \<Longrightarrow> seen_steps_at_len st3 k' = seen_steps_at_len st k'"
    unfolding st3_def using after_build_effect [OF k1 Lk Sk] by simp_all
  show "proofs_at_len st3 0 = []" using L3 L0 k by simp
  show "proofs_at_len st3 k' = [] \<and> seen_steps_at_len st3 k' = {}" if "Suc k \<le> k'" for k'
    using that above [of k'] L3 S3 [of k'] by simp
  show "proofs_at_len st3 k' = layer_of k' (proofs_at_len st3 1) (proofs_at_len st3 (k' - 1))"
    if "2 \<le> k'" "k' < Suc k" for k'
  proof (cases "k' = k")
    case True
    have "k - 1 \<noteq> k" using k by arith
    then show ?thesis using True L3 k by simp
  next
    case False
    with that have lt: "k' < k" by simp
    then have ne: "k' \<noteq> k" "k' - 1 \<noteq> k" "1 \<noteq> k" using k by arith+
    have "proofs_at_len st3 k' = ?L k'" "proofs_at_len st3 (k' - 1) = ?L (k' - 1)"
      "proofs_at_len st3 1 = ?L 1"
      using ne by (simp_all add: L3)
    then show ?thesis using built [OF that(1) lt] by simp
  qed
  show "proofs_at_len st3 k' \<noteq> []" if "1 \<le> k'" "k' < k" for k'
  proof -
    have eq: "proofs_at_len st3 k' = ?L k'" using that by (simp add: L3)
    show ?thesis
    proof (cases "k = 2")
      case True
      then have "k' = k - 1" using that by arith
      then show ?thesis using prev eq by simp
    next
      case False
      then have "2 < k" using k by simp
      then show ?thesis using nonempty [of k'] that eq by simp
    qed
  qed
  show "total_proof_count st3 = (\<Sum>k' < Suc k. length (proofs_at_len st3 k'))"
    by (simp add: C3 count L3)
  show "FoundNewOfLength n k' \<in> set (written st3) \<longleftrightarrow>
           2 \<le> k' \<and> k' < Suc k \<and> n = length (proofs_at_len st3 k')" for n k'
    using found [of n k'] k by (auto simp: W3 L3)
  show "NoProofsOfLength m \<notin> set (written st3)" for m
    using no1 by (simp add: W3)
  show "NoNewOfLength m \<notin> set (written st3)" for m
    using no2 by (simp add: W3)
qed

lemma loop_inv_empty_layer:
  assumes inv: "loop_inv maxlen k st"
    and le: "k \<le> maxlen"
    and prev: "proofs_at_len st (k - 1) \<noteq> []"
    and empty: "proofs_at_len (after_build k st) k = []"
  shows "search_done maxlen (write_line (NoNewOfLength k) (after_build k st))"
proof -
  let ?st = "after_build k st"
  let ?L = "proofs_at_len ?st"
  note ab = loop_inv_after_build [OF inv le prev]
  from inv have k: "2 \<le> k" by (simp add: loop_inv_def)
  have above: "?L k' = []" if "k \<le> k'" for k'
    using that ab(2) [of k'] empty by (cases "k' = k") auto
  have a: "\<forall>k'. 2 \<le> k' \<and> ?L k' \<noteq> [] \<longrightarrow> k' \<le> maxlen \<and> ?L (k' - 1) \<noteq> []"
  proof (intro allI impI)
    fix k' assume h: "2 \<le> k' \<and> ?L k' \<noteq> []"
    then have lt: "k' < k" using above [of k'] by (cases "k \<le> k'") auto
    with h have "1 \<le> k' - 1" "k' - 1 < k" by arith+
    then have "?L (k' - 1) \<noteq> []" by (rule ab(4))
    moreover have "k' \<le> maxlen" using le lt by arith
    ultimately show "k' \<le> maxlen \<and> ?L (k' - 1) \<noteq> []" by simp
  qed
  have b: "\<forall>k'. 2 \<le> k' \<and> k' \<le> maxlen \<and> ?L (k' - 1) \<noteq> [] \<longrightarrow>
        ?L k' = layer_of k' (?L 1) (?L (k' - 1))"
  proof (intro allI impI)
    fix k' assume h: "2 \<le> k' \<and> k' \<le> maxlen \<and> ?L (k' - 1) \<noteq> []"
    then have "\<not> k \<le> k' - 1" using above [of "k' - 1"] by auto
    then have "k' < Suc k" by arith
    then show "?L k' = layer_of k' (?L 1) (?L (k' - 1))" using ab(3) [of k'] h by simp
  qed
  have c: "total_proof_count ?st = (\<Sum>k' < Suc (max 1 maxlen). length (?L k'))"
    unfolding ab(5)
    by (rule sum_lengths_extend [symmetric]) (use le above in auto)
  have d: "FoundNewOfLength n k' \<in> set (written ?st) \<longleftrightarrow>
        2 \<le> k' \<and> k' \<le> maxlen \<and> (\<forall>k''. 1 \<le> k'' \<and> k'' < k' \<longrightarrow> ?L k'' \<noteq> [])
        \<and> n = length (?L k')" for n k'
  proof (cases "k' < Suc k")
    case True
    then have "\<forall>k''. 1 \<le> k'' \<and> k'' < k' \<longrightarrow> ?L k'' \<noteq> []" using ab(4) by auto
    moreover have "k' \<le> maxlen" using True le by arith
    ultimately show ?thesis using ab(6) [of n k'] True by auto
  next
    case False
    then have "1 \<le> k \<and> k < k'" using k by arith
    then have "\<not> (\<forall>k''. 1 \<le> k'' \<and> k'' < k' \<longrightarrow> ?L k'' \<noteq> [])" using empty by blast
    then show ?thesis using ab(6) [of n k'] False by auto
  qed
  have L1: "?L 1 \<noteq> []" using ab(4) [of 1] k by simp
  have f: "NoNewOfLength k' \<in> set (written (write_line (NoNewOfLength k) ?st)) \<longleftrightarrow>
        2 \<le> k' \<and> k' \<le> maxlen \<and> (\<forall>k''. 1 \<le> k'' \<and> k'' < k' \<longrightarrow> ?L k'' \<noteq> [])
        \<and> ?L k' = []" for k'
  proof -
    consider "k' < k" | "k' = k" | "k < k'" by arith
    then show ?thesis
    proof cases
      case 1
      then have "2 \<le> k' \<longrightarrow> ?L k' \<noteq> []" using ab(4) [of k'] by simp
      then show ?thesis using ab(8) 1 by auto
    next
      case 2
      then show ?thesis using ab(4) ab(8) empty k le by auto
    next
      case 3
      then have "1 \<le> k \<and> k < k'" using k by arith
      then have "\<not> (\<forall>k''. 1 \<le> k'' \<and> k'' < k' \<longrightarrow> ?L k'' \<noteq> [])" using empty by blast
      then show ?thesis using ab(8) 3 by auto
    qed
  qed
  have e: "NoProofsOfLength m \<in> set (written ?st) \<longleftrightarrow>
        m = 1 \<and> 2 \<le> maxlen \<and> ?L 1 = []" for m
    using ab(7) [of m] L1 by simp
  have W: "written (write_line (NoNewOfLength k) ?st) = written ?st @ [NoNewOfLength k]"
    by simp
  have d': "FoundNewOfLength n k' \<in> set (written (write_line (NoNewOfLength k) ?st)) \<longleftrightarrow>
        2 \<le> k' \<and> k' \<le> maxlen \<and> (\<forall>k''. 1 \<le> k'' \<and> k'' < k' \<longrightarrow> ?L k'' \<noteq> [])
        \<and> n = length (?L k')" for n k'
    using d [of n k'] by (simp add: W)
  have e': "NoProofsOfLength m \<in> set (written (write_line (NoNewOfLength k) ?st)) \<longleftrightarrow>
        m = 1 \<and> 2 \<le> maxlen \<and> ?L 1 = []" for m
    using e [of m] by (simp add: W)
  show ?thesis
    unfolding search_done_def write_line_simps(1,3)
    using ab(1) a b c d' e' f by blast
qed

lemma loop_inv_continue:
  assumes inv: "loop_inv maxlen k st"
    and le: "k \<le> maxlen"
    and prev: "proofs_at_len st (k - 1) \<noteq> []"
    and nonempty: "proofs_at_len (after_build k st) k \<noteq> []"
  shows "loop_inv maxlen (Suc k)
           ((after_build k st)\<lparr>seen_steps_at_len :=
              (seen_steps_at_len (after_build k st))(k - 1 := {})\<rparr>)"
proof -
  note ab = loop_inv_after_build [OF inv le prev]
  from inv have k: "2 \<le> k" by (simp add: loop_inv_def)
  have filled: "proofs_at_len (after_build k st) k' \<noteq> []" if "1 \<le> k'" "k' < Suc k" for k'
    using that ab(4) [of k'] nonempty by (cases "k' = k") auto
  let ?st = "after_build k st"
  let ?st' = "?st\<lparr>seen_steps_at_len := (seen_steps_at_len ?st)(k - 1 := {})\<rparr>"
  have P: "proofs_at_len ?st' = proofs_at_len ?st" "written ?st' = written ?st"
    "total_proof_count ?st' = total_proof_count ?st" by simp_all
  have S: "seen_steps_at_len ?st' k' = {}" if "Suc k \<le> k'" for k'
    using ab(2) [OF that] by simp
  have 1: "2 \<le> Suc k" "Suc k \<le> Suc (max 1 maxlen)" using k le by simp_all
  have 2: "\<forall>k'\<ge>Suc k. proofs_at_len ?st' k' = [] \<and> seen_steps_at_len ?st' k' = {}"
    using ab(2) S by (simp add: P)
  have 3: "\<forall>k'. 2 \<le> k' \<and> k' < Suc k \<longrightarrow>
        proofs_at_len ?st' k' = layer_of k' (proofs_at_len ?st' 1) (proofs_at_len ?st' (k' - 1))"
    unfolding P using ab(3) by blast
  have 4: "2 < Suc k \<longrightarrow> (\<forall>k'. 1 \<le> k' \<and> k' < Suc k \<longrightarrow> proofs_at_len ?st' k' \<noteq> [])"
    unfolding P using filled by blast
  have 5: "\<forall>n k'. FoundNewOfLength n k' \<in> set (written ?st') \<longleftrightarrow>
        2 \<le> k' \<and> k' < Suc k \<and> n = length (proofs_at_len ?st' k')"
    unfolding P using ab(6) by blast
  have 6: "\<forall>m. NoProofsOfLength m \<notin> set (written ?st')"
    "\<forall>m. NoNewOfLength m \<notin> set (written ?st')"
    unfolding P using ab(7) ab(8) by blast+
  have 7: "proofs_at_len ?st' 0 = []" unfolding P by (rule ab(1))
  have 8: "total_proof_count ?st' = (\<Sum>k' < Suc k. length (proofs_at_len ?st' k'))"
    unfolding P by (rule ab(5))
  show ?thesis
    unfolding loop_inv_def using 1 2 3 4 5 6 7 8 by blast
qed

lemma search_loop_done:
  "loop_inv maxlen k st \<Longrightarrow> search_done maxlen (search_loop maxlen k st)"
proof (induction maxlen k st rule: search_loop.induct)
  case (1 maxlen k st)
  show ?case
  proof (cases "maxlen < k")
    case True
    then show ?thesis
      using loop_inv_stop [OF "1.prems"] by (subst search_loop_unfold) simp
  next
    case le: False
    show ?thesis
    proof (cases "proofs_at_len st (k - 1) = []")
      case True
      then show ?thesis
        using le loop_inv_empty_prev [OF "1.prems"] by (subst search_loop_unfold) simp
    next
      case prev: False
      show ?thesis
      proof (cases "proofs_at_len (after_build k st) k = []")
        case True
        then show ?thesis
          using le prev loop_inv_empty_layer [OF "1.prems"] by (subst search_loop_unfold) simp
      next
        case False
        have "loop_inv maxlen (Suc k)
           ((after_build k st)\<lparr>seen_steps_at_len :=
              (seen_steps_at_len (after_build k st))(k - 1 := {})\<rparr>)"
          using le prev False loop_inv_continue [OF "1.prems"] by simp
        then have "search_done maxlen (search_loop maxlen (Suc k)
           ((after_build k st)\<lparr>seen_steps_at_len :=
              (seen_steps_at_len (after_build k st))(k - 1 := {})\<rparr>))"
          using "1.IH" le prev False
          by (simp add: after_build_def Let_def)
        then show ?thesis
          using le prev False by (subst search_loop_unfold) simp
      qed
    qed
  qed
qed

section \<open>Step 1 and the whole function\<close>

lemma instantiate_axiom_eq:
  "instantiate_axiom name template vars combo st =
     map_option (\<lambda>p. add_proof 1 p st) (axiom_instance name template vars combo)"
  by (simp add: instantiate_axiom_def axiom_instance_def Let_def split: option.splits)

lemma fold_option_those:
  assumes "\<And>x st. f x st = map_option (\<lambda>p. g p st) (h x)"
  shows "fold_option f xs st = map_option (\<lambda>ps. fold g ps st) (those (map h xs))"
proof (induction xs arbitrary: st)
  case Nil
  show ?case by simp
next
  case (Cons x xs)
  show ?case
  proof (cases "h x")
    case None
    then have "f x st = None" by (simp add: assms)
    then show ?thesis using None by simp
  next
    case (Some p)
    then have "f x st = Some (g p st)" by (simp add: assms)
    then show ?thesis using Some
      by (cases "those (map h xs)") (simp_all add: Cons.IH)
  qed
qed

lemma fold_option_those_concat:
  assumes "\<And>x st. f x st = map_option (\<lambda>ps. fold g ps st) (h x)"
  shows "fold_option f xs st =
           map_option (\<lambda>ps. fold g ps st) (map_option concat (those (map h xs)))"
proof (induction xs arbitrary: st)
  case Nil
  show ?case by simp
next
  case (Cons x xs)
  show ?case
  proof (cases "h x")
    case None
    then have "f x st = None" by (simp add: assms)
    then show ?thesis using None by simp
  next
    case (Some p)
    then have "f x st = Some (fold g p st)" by (simp add: assms)
    then show ?thesis using Some
      by (cases "those (map h xs)") (simp_all add: Cons.IH)
  qed
qed

lemma generate_axioms_eq:
  "generate_axioms cfg st =
     map_option (\<lambda>ps. fold (add_proof 1) ps st) (axiom_instances cfg)"
proof -
  have inner: "fold_option (instantiate_axiom name template vars) combos st' =
      map_option (\<lambda>ps. fold (add_proof 1) ps st')
        (those (map (axiom_instance name template vars) combos))"
    for name template vars combos st'
    by (rule fold_option_those) (rule instantiate_axiom_eq)
  show ?thesis
    unfolding generate_axioms_def axiom_instances_def
    by (rule fold_option_those_concat) (simp add: split_def inner)
qed


lemma loop_start_simps:
  "proofs_at_len (loop_start cfg insts) = (\<lambda>k. [])(1 := add_new {} insts)"
  "seen_steps_at_len (loop_start cfg insts) = (\<lambda>k. {})(1 := fst ` set insts)"
  "total_proof_count (loop_start cfg insts) = length (add_new {} insts)"
  "written (loop_start cfg insts) =
     [GeneratingAxioms, UsingBasis (length (wff_basis cfg)) (wff_basis cfg),
      FoundLength1 (length (add_new {} insts)), SearchingUpTo (max_length cfg)]"
  by (simp_all add: loop_start_def Let_def fold_add_proof initial_state_def write_line_def)

lemma loop_inv_start: "loop_inv maxlen 2 (loop_start cfg insts)"
proof -
  have "total_proof_count (loop_start cfg insts)
      = (\<Sum>k' < 2. length (proofs_at_len (loop_start cfg insts) k'))"
    by (simp add: loop_start_simps lessThan_Suc numeral_2_eq_2)
  then show ?thesis
    unfolding loop_inv_def by (auto simp: loop_start_simps)
qed

lemma collect_and_print_simps:
  "proofs_at_len (collect_and_print maxlen st) = proofs_at_len st"
  "total_proof_count (collect_and_print maxlen st) = total_proof_count st"
  "all_proofs (collect_and_print maxlen st) = concat (map (proofs_at_len st) [3 ..< maxlen + 1])"
  "proofs_with_mp (collect_and_print maxlen st) =
     filter uses_mp (concat (map (proofs_at_len st) [3 ..< maxlen + 1]))"
  "best_proofs (collect_and_print maxlen st) =
     best_proofs_for_theorem (filter uses_mp (concat (map (proofs_at_len st) [3 ..< maxlen + 1])))"
  "reported (collect_and_print maxlen st) =
     final_proofs (best_proofs_for_theorem
       (filter uses_mp (concat (map (proofs_at_len st) [3 ..< maxlen + 1]))))"
  by (simp_all add: collect_and_print_def Let_def search_state.defs
      best_proofs_for_theorem_def final_proofs_def)

lemma collect_and_print_written:
  "written (collect_and_print maxlen st) =
     written st
     @ [FoundTotal (total_proof_count st),
        FoundWithMP (length (proofs_with_mp (collect_and_print maxlen st)))]
     @ (if proofs_with_mp (collect_and_print maxlen st) = [] then [NoProofsWithMP]
        else FilteringDown (length (best_proofs (collect_and_print maxlen st)))
             # print_all (reported (collect_and_print maxlen st)))"
  by (simp add: collect_and_print_def Let_def search_state.defs)

lemma find_all_proofs_SomeE:
  assumes "find_all_proofs cfg = Some r"
  obtains insts st where
    "axiom_instances cfg = Some insts"
    "st = search_loop (max_length cfg) 2 (loop_start cfg insts)"
    "r = collect_and_print (max_length cfg) (write_line SearchComplete st)"
proof -
  from assms obtain insts where insts: "axiom_instances cfg = Some insts"
    by (auto simp: find_all_proofs_def Let_def generate_axioms_eq split: option.splits)
  have "r = collect_and_print (max_length cfg)
      (write_line SearchComplete (search_loop (max_length cfg) 2 (loop_start cfg insts)))"
    using assms by (simp add: find_all_proofs_def generate_axioms_eq insts loop_start_def Let_def)
  with insts show ?thesis by (rule that [OF _ refl])
qed

section \<open>Sets and lists of new candidates\<close>

lemma add_new_subset: "set (add_new S cs) \<subseteq> set cs"
  by (induction cs arbitrary: S) auto

lemma add_new_fst_image: "fst ` set (add_new S cs) = fst ` set cs - S"
  by (induction cs arbitrary: S) auto

lemma add_new_distinct: "distinct (map fst (add_new S cs))"
proof (induction cs arbitrary: S)
  case Nil
  show ?case by simp
next
  case (Cons c cs)
  have "fst c \<notin> fst ` set (add_new (insert (fst c) S) cs)"
    by (simp add: add_new_fst_image)
  then show ?case using Cons.IH by simp
qed

lemma add_new_member:
  "p \<in> set (add_new S cs) \<longleftrightarrow>
     (\<exists>xs ys. cs = xs @ p # ys \<and> fst p \<notin> S \<and> fst p \<notin> fst ` set xs)"
proof (induction cs arbitrary: S)
  case Nil
  show ?case by simp
next
  case (Cons c cs)
  show ?case
  proof
    assume L: "p \<in> set (add_new S (c # cs))"
    show "\<exists>xs ys. c # cs = xs @ p # ys \<and> fst p \<notin> S \<and> fst p \<notin> fst ` set xs"
    proof (cases "fst c \<in> S")
      case True
      with L have "p \<in> set (add_new S cs)" by simp
      then obtain xs ys where "cs = xs @ p # ys" "fst p \<notin> S" "fst p \<notin> fst ` set xs"
        using Cons.IH by blast
      then have "c # cs = (c # xs) @ p # ys \<and> fst p \<notin> S \<and> fst p \<notin> fst ` set (c # xs)"
        using True by auto
      then show ?thesis by blast
    next
      case False
      show ?thesis
      proof (cases "p = c")
        case True
        then have "c # cs = [] @ p # cs \<and> fst p \<notin> S \<and> fst p \<notin> fst ` set []"
          using False by simp
        then show ?thesis by blast
      next
        case ne: False
        with L False have "p \<in> set (add_new (insert (fst c) S) cs)" by simp
        then obtain xs ys where "cs = xs @ p # ys" "fst p \<notin> insert (fst c) S"
          "fst p \<notin> fst ` set xs"
          using Cons.IH by blast
        then have "c # cs = (c # xs) @ p # ys \<and> fst p \<notin> S \<and> fst p \<notin> fst ` set (c # xs)"
          by auto
        then show ?thesis by blast
      qed
    qed
  next
    assume "\<exists>xs ys. c # cs = xs @ p # ys \<and> fst p \<notin> S \<and> fst p \<notin> fst ` set xs"
    then obtain xs ys where eq: "c # cs = xs @ p # ys" and nS: "fst p \<notin> S"
      and nx: "fst p \<notin> fst ` set xs" by blast
    show "p \<in> set (add_new S (c # cs))"
    proof (cases xs)
      case Nil
      with eq have "c = p" by simp
      then show ?thesis using nS by simp
    next
      case (Cons x xs')
      with eq have c: "c = x" and cs: "cs = xs' @ p # ys" by simp_all
      have "fst p \<noteq> fst c" using nx Cons c by auto
      then have "fst p \<notin> insert (fst c) S" "fst p \<notin> fst ` set xs'"
        using nS nx Cons by auto
      then have "p \<in> set (add_new (insert (fst c) S) cs)" "p \<in> set (add_new S cs)"
        using Cons.IH cs nS by blast+
      then show ?thesis by simp
    qed
  qed
qed

section \<open>The state in which \<open>find_all_proofs\<close> ends\<close>

lemma search_loop_layer1:
  "loop_inv maxlen k st \<Longrightarrow> proofs_at_len (search_loop maxlen k st) 1 = proofs_at_len st 1"
proof (induction maxlen k st rule: search_loop.induct)
  case (1 maxlen k st)
  from "1.prems" have k: "2 \<le> k"
    and above: "proofs_at_len st k = []" "seen_steps_at_len st k = {}"
    by (simp_all add: loop_inv_def)
  have k1: "k \<noteq> 1" using k by simp
  have ab1: "proofs_at_len (after_build k st) 1 = proofs_at_len st 1"
    using after_build_effect(1) [OF k1 above] k1 by simp
  show ?case
  proof (cases "maxlen < k \<or> proofs_at_len st (k - 1) = []
      \<or> proofs_at_len (after_build k st) k = []")
    case True
    then show ?thesis
      using ab1 by (subst search_loop_unfold) auto
  next
    case False
    then have c: "\<not> maxlen < k" "proofs_at_len st (k - 1) \<noteq> []"
      "proofs_at_len (after_build k st) k \<noteq> []" by simp_all
    have inv': "loop_inv maxlen (Suc k)
           ((after_build k st)\<lparr>seen_steps_at_len :=
              (seen_steps_at_len (after_build k st))(k - 1 := {})\<rparr>)"
      using c loop_inv_continue [OF "1.prems"] by simp
    have "proofs_at_len (search_loop maxlen (Suc k)
           ((after_build k st)\<lparr>seen_steps_at_len :=
              (seen_steps_at_len (after_build k st))(k - 1 := {})\<rparr>)) 1
        = proofs_at_len ((after_build k st)\<lparr>seen_steps_at_len :=
              (seen_steps_at_len (after_build k st))(k - 1 := {})\<rparr>) 1"
      using "1.IH" c inv' by (simp add: after_build_def Let_def)
    then show ?thesis
      using c ab1 by (subst search_loop_unfold) simp
  qed
qed

lemma print_all_lines: "l \<in> set (print_all ps) \<Longrightarrow> \<exists>text. l = PrintedProof text"
  by (auto simp: print_all_def split: option.splits)

lemma search_done_transfer:
  assumes "search_done maxlen st"
    and "proofs_at_len r = proofs_at_len st"
    and "total_proof_count r = total_proof_count st"
    and "\<And>n k. FoundNewOfLength n k \<in> set (written r) \<longleftrightarrow> FoundNewOfLength n k \<in> set (written st)"
    and "\<And>m. NoProofsOfLength m \<in> set (written r) \<longleftrightarrow> NoProofsOfLength m \<in> set (written st)"
    and "\<And>m. NoNewOfLength m \<in> set (written r) \<longleftrightarrow> NoNewOfLength m \<in> set (written st)"
  shows "search_done maxlen r"
  using assms(1) unfolding search_done_def assms(2-6) .

lemma run_done:
  assumes "find_all_proofs cfg = Some r"
  shows "search_done (max_length cfg) r"
    and "\<exists>insts. axiom_instances cfg = Some insts \<and> proofs_at_len r 1 = add_new {} insts"
proof -
  from assms obtain insts st where insts: "axiom_instances cfg = Some insts"
    and st: "st = search_loop (max_length cfg) 2 (loop_start cfg insts)"
    and r: "r = collect_and_print (max_length cfg) (write_line SearchComplete st)"
    by (rule find_all_proofs_SomeE)
  have fin: "search_done (max_length cfg) st"
    unfolding st by (rule search_loop_done) (rule loop_inv_start)
  have W: "written r = written st
     @ [SearchComplete, FoundTotal (total_proof_count st), FoundWithMP (length (proofs_with_mp r))]
     @ (if proofs_with_mp r = [] then [NoProofsWithMP]
        else FilteringDown (length (best_proofs r)) # print_all (reported r))"
    unfolding r by (subst collect_and_print_written) simp
  have other: "l \<in> set (written r) \<longleftrightarrow> l \<in> set (written st)"
    if "l \<noteq> SearchComplete" "\<And>n. l \<noteq> FoundTotal n" "\<And>n. l \<noteq> FoundWithMP n"
      "l \<noteq> NoProofsWithMP" "\<And>n. l \<noteq> FilteringDown n" "\<And>t. l \<noteq> PrintedProof t" for l
    using that print_all_lines [of l "reported r"] by (auto simp: W)
  show "search_done (max_length cfg) r"
  proof (rule search_done_transfer [OF fin])
    show "proofs_at_len r = proofs_at_len st" by (simp add: r collect_and_print_simps)
    show "total_proof_count r = total_proof_count st" by (simp add: r collect_and_print_simps)
  qed (rule other; simp)+
  have "proofs_at_len r 1 = proofs_at_len (loop_start cfg insts) 1"
    unfolding r st using search_loop_layer1 [OF loop_inv_start]
    by (simp add: collect_and_print_simps)
  then show "\<exists>insts. axiom_instances cfg = Some insts \<and> proofs_at_len r 1 = add_new {} insts"
    using insts by (simp add: loop_start_simps)
qed

section \<open>What the layers contain\<close>

lemma those_member: "those xs = Some ys \<Longrightarrow> y \<in> set ys \<longleftrightarrow> Some y \<in> set xs"
proof (induction xs arbitrary: ys)
  case Nil
  then show ?case by simp
next
  case (Cons x xs)
  then show ?case by (auto split: option.splits)
qed

lemma those_concat_member:
  assumes "map_option concat (those (map h ts)) = Some ps"
  shows "p \<in> set ps \<longleftrightarrow> (\<exists>t\<in>set ts. \<exists>qs. h t = Some qs \<and> p \<in> set qs)"
proof -
  from assms obtain pss where pss: "those (map h ts) = Some pss" and ps: "ps = concat pss"
    by auto
  have "qs \<in> set pss \<longleftrightarrow> (\<exists>t\<in>set ts. h t = Some qs)" for qs
    using those_member [OF pss, of qs] by (simp add: image_iff) metis
  then show ?thesis unfolding ps set_concat by blast
qed

lemma those_all_some: "those xs = Some ys \<Longrightarrow> x \<in> set xs \<Longrightarrow> \<exists>y. x = Some y"
proof (induction xs arbitrary: ys)
  case Nil
  then show ?case by simp
next
  case (Cons a xs)
  then show ?case by (auto split: option.splits)
qed

lemma axiom_instance_Some:
  "axiom_instance name template vars combo = Some p \<longleftrightarrow>
     (\<exists>formula. substitute template (dict_zip vars combo) = Some formula \<and>
        p = ([formula], [axiom_just name (dict_zip vars combo)]))"
  by (auto simp: axiom_instance_def Let_def)

lemma axiom_instances_member:
  assumes "axiom_instances cfg = Some insts"
  shows "p \<in> set insts \<longleftrightarrow>
     (\<exists>name template vars combo formula.
        (name, template, vars) \<in> set (axiom_templates cfg) \<and>
        combo \<in> set (product_lists (replicate (length vars) (wff_basis cfg))) \<and>
        substitute template (dict_zip vars combo) = Some formula \<and>
        p = ([formula], [axiom_just name (dict_zip vars combo)]))"
proof -
  define h where "h = (\<lambda>(name, template, vars).
                 those (map (axiom_instance name template vars)
                   (product_lists (replicate (length vars) (wff_basis cfg)))))"
  have ai: "map_option concat (those (map h (axiom_templates cfg))) = Some insts"
    using assms by (simp add: axiom_instances_def h_def)
  have 1: "p \<in> set insts \<longleftrightarrow> (\<exists>t\<in>set (axiom_templates cfg). \<exists>qs. h t = Some qs \<and> p \<in> set qs)"
    by (rule those_concat_member [OF ai])
  from ai obtain pss where pss: "those (map h (axiom_templates cfg)) = Some pss" by auto
  have all_some: "\<exists>qs. h t = Some qs" if "t \<in> set (axiom_templates cfg)" for t
    using those_all_some [OF pss, of "h t"] that by auto
  have 2: "p \<in> set qs \<longleftrightarrow>
      (\<exists>combo\<in>set (product_lists (replicate (length vars) (wff_basis cfg))).
          axiom_instance name template vars combo = Some p)"
    if "h (name, template, vars) = Some qs" for name template vars qs
    using those_member [of "map (axiom_instance name template vars)
                   (product_lists (replicate (length vars) (wff_basis cfg)))" qs p] that
    by (simp add: h_def image_iff) metis
  show ?thesis
  proof
    assume "p \<in> set insts"
    then obtain t qs where t: "t \<in> set (axiom_templates cfg)" and qs: "h t = Some qs"
      and p: "p \<in> set qs" using 1 by blast
    obtain name template vars where tt: "t = (name, template, vars)" by (cases t) auto
    from 2 [OF qs [unfolded tt]] p obtain combo
      where "combo \<in> set (product_lists (replicate (length vars) (wff_basis cfg)))"
        and "axiom_instance name template vars combo = Some p" by blast
    then show "\<exists>name template vars combo formula.
        (name, template, vars) \<in> set (axiom_templates cfg) \<and>
        combo \<in> set (product_lists (replicate (length vars) (wff_basis cfg))) \<and>
        substitute template (dict_zip vars combo) = Some formula \<and>
        p = ([formula], [axiom_just name (dict_zip vars combo)])"
      using t tt unfolding axiom_instance_Some by blast
  next
    assume "\<exists>name template vars combo formula.
        (name, template, vars) \<in> set (axiom_templates cfg) \<and>
        combo \<in> set (product_lists (replicate (length vars) (wff_basis cfg))) \<and>
        substitute template (dict_zip vars combo) = Some formula \<and>
        p = ([formula], [axiom_just name (dict_zip vars combo)])"
    then obtain name template vars combo formula where
      t: "(name, template, vars) \<in> set (axiom_templates cfg)" and
      c: "combo \<in> set (product_lists (replicate (length vars) (wff_basis cfg)))" and
      i: "axiom_instance name template vars combo = Some p"
      by (auto simp: axiom_instance_Some)
    from all_some [OF t] obtain qs where qs: "h (name, template, vars) = Some qs" by blast
    have "p \<in> set qs" using 2 [OF qs] c i by blast
    then show "p \<in> set insts" using 1 t qs by blast
  qed
qed


lemma mp_candidates_member:
  "c \<in> set (mp_candidates prf i j) \<longleftrightarrow>
     i \<noteq> j \<and> (\<exists>q. apply_mp (fst prf ! i) (fst prf ! j) = Some q \<and> q \<noteq> [] \<and>
                  c = (fst prf @ [q], snd prf @ [mp_just i j]))"
proof (cases "i = j")
  case True
  then show ?thesis by (simp add: mp_candidates_def)
next
  case ne: False
  show ?thesis
  proof (cases "apply_mp (fst prf ! i) (fst prf ! j)")
    case None
    then show ?thesis using ne by (simp add: mp_candidates_def)
  next
    case (Some q)
    then show ?thesis using ne by (cases "q = []") (simp_all add: mp_candidates_def)
  qed
qed

lemma proof_candidates_member:
  "c \<in> set (proof_candidates k axioms prf) \<longleftrightarrow>
     (\<exists>a\<in>set axioms. c = (fst prf @ [hd (fst a)], snd prf @ [hd (snd a)])) \<or>
     (\<exists>i<k - 1. \<exists>j<k - 1. c \<in> set (mp_candidates prf i j))"
proof -
  have A: "c \<in> set (axiom_candidates axioms prf) \<longleftrightarrow>
      (\<exists>a\<in>set axioms. c = (fst prf @ [hd (fst a)], snd prf @ [hd (snd a)]))"
    unfolding axiom_candidates_def set_map image_iff ..
  have B: "c \<in> set (concat (map (\<lambda>i. concat (map (\<lambda>j. f i j) [0 ..< n])) [0 ..< n])) \<longleftrightarrow>
      (\<exists>i<n. \<exists>j<n. c \<in> set (f i j))" for f :: "nat \<Rightarrow> nat \<Rightarrow> pyproof list" and n
    by (simp add: Bex_def)
  show ?thesis
    unfolding proof_candidates_def set_append Un_iff A B ..
qed

lemma run_layers:
  assumes "find_all_proofs cfg = Some r"
  shows "proofs_at_len r 0 = []"
    and "\<And>k. 2 \<le> k \<Longrightarrow> proofs_at_len r k \<noteq> [] \<Longrightarrow>
           k \<le> max_length cfg \<and> proofs_at_len r (k - 1) \<noteq> []"
    and "\<And>k. 2 \<le> k \<Longrightarrow> k \<le> max_length cfg \<Longrightarrow> proofs_at_len r (k - 1) \<noteq> [] \<Longrightarrow>
           proofs_at_len r k = layer_of k (proofs_at_len r 1) (proofs_at_len r (k - 1))"
    and "total_proof_count r = (\<Sum>k < Suc (max 1 (max_length cfg)). length (proofs_at_len r k))"
proof -
  note s = run_done(1) [OF assms, unfolded search_done_def]
  show "proofs_at_len r 0 = []" by (rule s [THEN conjunct1])
  show "k \<le> max_length cfg \<and> proofs_at_len r (k - 1) \<noteq> []"
    if "2 \<le> k" "proofs_at_len r k \<noteq> []" for k
    using s [THEN conjunct2, THEN conjunct1, rule_format, of k] that by simp
  show "proofs_at_len r k = layer_of k (proofs_at_len r 1) (proofs_at_len r (k - 1))"
    if "2 \<le> k" "k \<le> max_length cfg" "proofs_at_len r (k - 1) \<noteq> []" for k
    using s [THEN conjunct2, THEN conjunct2, THEN conjunct1, rule_format, of k] that by simp
  show "total_proof_count r = (\<Sum>k < Suc (max 1 (max_length cfg)). length (proofs_at_len r k))"
    by (rule s [THEN conjunct2, THEN conjunct2, THEN conjunct2, THEN conjunct1])
qed

lemma layer_member_step:
  assumes run: "find_all_proofs cfg = Some r"
    and k: "2 \<le> k"
    and c: "c \<in> set (proofs_at_len r k)"
  shows "\<exists>prf\<in>set (proofs_at_len r (k - 1)). c \<in> set (proof_candidates k (proofs_at_len r 1) prf)"
proof -
  from c have ne: "proofs_at_len r k \<noteq> []" by auto
  define cs where "cs = concat (map (proof_candidates k (proofs_at_len r 1))
      (proofs_at_len r (k - 1)))"
  from run_layers(2) [OF run k ne] run_layers(3) [OF run k]
  have "proofs_at_len r k = add_new {} cs" by (simp add: layer_of_def cs_def)
  with c have "c \<in> set (add_new {} cs)" by simp
  then have "c \<in> set cs" using add_new_subset [of "{}" cs] by blast
  then show ?thesis unfolding cs_def by auto
qed

lemma layer1_member:
  assumes run: "find_all_proofs cfg = Some r"
    and p: "p \<in> set (proofs_at_len r 1)"
  shows "\<exists>name template vars combo formula.
        (name, template, vars) \<in> set (axiom_templates cfg) \<and>
        combo \<in> set (product_lists (replicate (length vars) (wff_basis cfg))) \<and>
        substitute template (dict_zip vars combo) = Some formula \<and>
        p = ([formula], [axiom_just name (dict_zip vars combo)])"
proof -
  from run_done(2) [OF run] obtain insts where insts: "axiom_instances cfg = Some insts"
    and L1: "proofs_at_len r 1 = add_new {} insts" by blast
  from p have "p \<in> set insts" using add_new_subset unfolding L1 by blast
  then show ?thesis by (rule iffD1 [OF axiom_instances_member [OF insts]])
qed

lemma layer_shape:
  assumes run: "find_all_proofs cfg = Some r"
  shows "p \<in> set (proofs_at_len r k) \<Longrightarrow> length (fst p) = k \<and> length (snd p) = k"
proof (induction k arbitrary: p)
  case 0
  then show ?case using run_layers(1) [OF run] by simp
next
  case (Suc k)
  show ?case
  proof (cases "k = 0")
    case True
    then have "p \<in> set (proofs_at_len r 1)" using Suc.prems by simp
    from layer1_member [OF run this] obtain formula just where "p = ([formula], [just])"
      by blast
    then show ?thesis using True by simp
  next
    case False
    then have "2 \<le> Suc k" by simp
    from layer_member_step [OF run this Suc.prems]
    obtain prev where P: "prev \<in> set (proofs_at_len r k)"
      and c: "p \<in> set (proof_candidates (Suc k) (proofs_at_len r 1) prev)" by auto
    from Suc.IH [OF P] have "length (fst prev) = k" "length (snd prev) = k" by simp_all
    then show ?thesis
      using c unfolding proof_candidates_member mp_candidates_member by auto
  qed
qed

lemma layer_distinct:
  assumes run: "find_all_proofs cfg = Some r"
  shows "distinct (map fst (proofs_at_len r k))"
proof -
  consider "k = 0" | "k = 1" | "2 \<le> k" by arith
  then show ?thesis
  proof cases
    case 1
    then show ?thesis using run_layers(1) [OF run] by simp
  next
    case 2
    from run_done(2) [OF run] obtain insts where "proofs_at_len r 1 = add_new {} insts" by blast
    then show ?thesis using 2 by (simp add: add_new_distinct)
  next
    case 3
    show ?thesis
    proof (cases "proofs_at_len r k = []")
      case True
      then show ?thesis by simp
    next
      case False
      from run_layers(2) [OF run 3 False] run_layers(3) [OF run 3]
      have "proofs_at_len r k = layer_of k (proofs_at_len r 1) (proofs_at_len r (k - 1))" by simp
      then show ?thesis by (simp add: layer_of_def add_new_distinct)
    qed
  qed
qed

lemma candidate_extends:
  assumes "c \<in> set (proof_candidates k axioms prf)"
  shows "\<exists>formula just. c = (fst prf @ [formula], snd prf @ [just])"
proof -
  from assms consider a where "a \<in> set axioms" "c = (fst prf @ [hd (fst a)], snd prf @ [hd (snd a)])"
    | i j where "c \<in> set (mp_candidates prf i j)"
    unfolding proof_candidates_member by blast
  then show ?thesis
  proof cases
    case 1
    then show ?thesis by blast
  next
    case 2
    then show ?thesis unfolding mp_candidates_member by blast
  qed
qed

lemma layer_extends:
  assumes run: "find_all_proofs cfg = Some r"
    and k: "2 \<le> k"
    and c: "(steps, justs) \<in> set (proofs_at_len r k)"
  shows "\<exists>prev_steps prev_justs formula just.
           (prev_steps, prev_justs) \<in> set (proofs_at_len r (k - 1)) \<and>
           steps = prev_steps @ [formula] \<and> justs = prev_justs @ [just]"
proof -
  from layer_member_step [OF run k c] obtain prev where P: "prev \<in> set (proofs_at_len r (k - 1))"
    and cand: "(steps, justs) \<in> set (proof_candidates k (proofs_at_len r 1) prev)" by blast
  from candidate_extends [OF cand] obtain formula just
    where "steps = fst prev @ [formula]" "justs = snd prev @ [just]" by auto
  moreover have "(fst prev, snd prev) \<in> set (proofs_at_len r (k - 1))" using P by simp
  ultimately show ?thesis by blast
qed

section \<open>The axiom instances of the small configuration\<close>

lemmas string_evals = str_def ARROW_def NEG_def BACKSLASH_def

lemmas substitute_evals = substitute_def sorted_keys_def re_sub_word_def modelled_text_def
  match_here_def word_boundary_def startswith_def is_word_char_def dict_zip_def

lemma small_A1: "axiom_instance (str ''A1'') A1_template [str ''A'', str ''B''] [str ''a'', str ''a''] = Some A1_aa"
  by (simp add: axiom_instance_def axiom_just_def A1_template_def A1_aa_def substitute_evals string_evals)

lemma small_A2: "axiom_instance (str ''A2'') A2_template [str ''A'', str ''B'', str ''C''] [str ''a'', str ''a'', str ''a''] = Some A2_aaa"
  by (simp add: axiom_instance_def axiom_just_def A2_template_def A2_aaa_def substitute_evals string_evals)

lemma small_A3: "axiom_instance (str ''A3'') A3_template [str ''A'', str ''B''] [str ''a'', str ''a''] = Some A3_aa"
  by (simp add: axiom_instance_def axiom_just_def A3_template_def A3_aa_def substitute_evals string_evals)

lemma small_instances: "axiom_instances small_config = Some [A1_aa, A2_aaa, A3_aa]"
  by (simp add: axiom_instances_def small_config_def AXIOM_TEMPLATES_def small_A1 small_A2 small_A3
      numeral_2_eq_2 numeral_3_eq_3)

section \<open>Candidates that are accepted\<close>

lemma find_all_proofs_returns:
  assumes "axiom_instances cfg = Some insts"
  shows "\<exists>r. find_all_proofs cfg = Some r"
  using assms by (simp add: find_all_proofs_def generate_axioms_eq Let_def)

lemma find_all_proofs_None:
  "find_all_proofs cfg = None \<longleftrightarrow> axiom_instances cfg = None"
  by (cases "axiom_instances cfg") (simp_all add: find_all_proofs_def generate_axioms_eq Let_def)

lemma small_run: "find_all_proofs small_config = Some small_result"
  using find_all_proofs_returns [OF small_instances] by (auto simp: small_result_def)

lemma small_layer1: "proofs_at_len small_result 1 = [A1_aa, A2_aaa, A3_aa]"
proof -
  from run_done(2) [OF small_run] have "proofs_at_len small_result 1 = add_new {} [A1_aa, A2_aaa, A3_aa]"
    by (simp add: small_instances)
  then show ?thesis
    by (simp add: A1_aa_def A2_aaa_def A3_aa_def string_evals)
qed

lemma layer_of_member_first:
  assumes dist: "distinct (map fst prev)"
    and P: "prf \<in> set prev"
    and split: "proof_candidates k axioms prf = xs @ c # ys"
    and first: "fst c \<notin> fst ` set xs"
  shows "c \<in> set (layer_of k axioms prev)"
proof -
  let ?f = "proof_candidates k axioms"
  from P obtain ps1 ps2 where prev: "prev = ps1 @ prf # ps2" by (auto dest: split_list)
  have cs: "concat (map ?f prev) = (concat (map ?f ps1) @ xs) @ c # (ys @ concat (map ?f ps2))"
    by (simp add: prev split)
  have c_in: "c \<in> set (?f prf)" by (simp add: split)
  from candidate_extends [OF c_in] obtain formula just where c: "c = (fst prf @ [formula], snd prf @ [just])"
    by blast
  have "fst c \<noteq> fst c'" if "c' \<in> set (concat (map ?f ps1))" for c'
  proof -
    from that obtain p' where p': "p' \<in> set ps1" and c': "c' \<in> set (?f p')" by auto
    from candidate_extends [OF c'] obtain formula' just'
      where c'eq: "c' = (fst p' @ [formula'], snd p' @ [just'])" by blast
    have "fst prf \<notin> fst ` set ps1" using dist by (simp add: prev)
    then have "fst p' \<noteq> fst prf" using p' by (metis imageI)
    then show ?thesis by (simp add: c c'eq)
  qed
  then have "fst c \<notin> fst ` set (concat (map ?f ps1) @ xs)" using first by auto
  then show ?thesis
    unfolding layer_of_def add_new_member using cs by blast
qed


lemma singleton_hd: "length xs = 1 \<Longrightarrow> xs = [hd xs]"
  by (cases xs) simp_all

lemma option_a_accepted:
  assumes run: "find_all_proofs cfg = Some r"
    and k: "2 \<le> k" "k \<le> max_length cfg"
    and P: "prev \<in> set (proofs_at_len r (k - 1))"
    and A: "a \<in> set (proofs_at_len r 1)"
  shows "(fst prev @ [hd (fst a)], snd prev @ [hd (snd a)]) \<in> set (proofs_at_len r k)"
proof -
  let ?axs = "proofs_at_len r 1"
  let ?g = "\<lambda>a. (fst prev @ [hd (fst a)], snd prev @ [hd (snd a)])"
  from P have "proofs_at_len r (k - 1) \<noteq> []" by auto
  from run_layers(3) [OF run k this]
  have Lk: "proofs_at_len r k = layer_of k ?axs (proofs_at_len r (k - 1))" .
  from A obtain as1 as2 where axs: "?axs = as1 @ a # as2" by (auto dest: split_list)
  have split: "proof_candidates k ?axs prev =
      map ?g as1 @ ?g a # (map ?g as2
        @ concat (map (\<lambda>i. concat (map (\<lambda>j. mp_candidates prev i j) [0 ..< k - 1])) [0 ..< k - 1]))"
    unfolding proof_candidates_def axiom_candidates_def axs by simp
  have dist1: "distinct (map fst ?axs)" by (rule layer_distinct [OF run])
  have first: "fst (?g a) \<notin> fst ` set (map ?g as1)"
  proof
    assume "fst (?g a) \<in> fst ` set (map ?g as1)"
    then have "\<exists>a'\<in>set as1. fst (?g a) = fst (?g a')"
      unfolding set_map image_image image_iff .
    then obtain a' where a': "a' \<in> set as1" and e: "fst (?g a) = fst (?g a')" ..
    from e have eq: "hd (fst a') = hd (fst a)" by simp
    have "a' \<in> set ?axs" unfolding axs using a' by simp
    from layer_shape [OF run this] layer_shape [OF run A]
    have la: "length (fst a') = 1" and lb: "length (fst a) = 1" by simp_all
    have "fst a' = [hd (fst a')]" by (rule singleton_hd [OF la])
    moreover have "fst a = [hd (fst a)]" by (rule singleton_hd [OF lb])
    ultimately have "fst a' = fst a" using eq by simp
    moreover have "fst a \<notin> fst ` set as1" using dist1 unfolding axs by simp
    ultimately show False using a' by (metis imageI)
  qed
  show ?thesis
    unfolding Lk
    by (rule layer_of_member_first [OF layer_distinct [OF run] P split first])
qed

lemma small_layer2_member:
  "(fst A1_aa @ [hd (fst A2_aaa)], snd A1_aa @ [hd (snd A2_aaa)]) \<in> set (proofs_at_len small_result 2)"
proof -
  have "(fst A1_aa @ [hd (fst A2_aaa)], snd A1_aa @ [hd (snd A2_aaa)])
      \<in> set (proofs_at_len small_result 2)"
    by (rule option_a_accepted [OF small_run]) (use small_layer1 in \<open>simp_all add: small_config_def\<close>)
  then show ?thesis .
qed

section \<open>The prefix invariant\<close>

text \<open>
  C5. Prefix invariant: a proof accepted into layer \<open>k\<close>, for \<open>k \<ge> 2\<close>, has \<open>k\<close> steps
  and \<open>k\<close> justifications, and it is a proof accepted into layer \<open>k - 1\<close> with exactly one
  formula and one justification appended; nothing of the shorter proof is reordered,
  changed or removed.
\<close>

theorem prefix_invariant:
  assumes "find_all_proofs cfg = Some r"
    and "2 \<le> k"
    and "(steps, justs) \<in> set (proofs_at_len r k)"
  shows "length steps = k \<and> length justs = k \<and>
     (\<exists>prev_steps prev_justs formula just.
        (prev_steps, prev_justs) \<in> set (proofs_at_len r (k - 1)) \<and>
        steps = prev_steps @ [formula] \<and> justs = prev_justs @ [just])"
  using layer_shape [OF assms(1) assms(3)] layer_extends [OF assms] by simp

theorem prefix_invariant_witness:
  "find_all_proofs small_config = Some small_result \<and> (2::nat) \<le> 2 \<and>
   (fst A1_aa @ [hd (fst A2_aaa)], snd A1_aa @ [hd (snd A2_aaa)])
     \<in> set (proofs_at_len small_result 2) \<and>
   length (fst A1_aa @ [hd (fst A2_aaa)]) = 2 \<and>
   length (snd A1_aa @ [hd (snd A2_aaa)]) = 2 \<and>
   (\<exists>prev_steps prev_justs formula just.
        (prev_steps, prev_justs) \<in> set (proofs_at_len small_result (2 - 1)) \<and>
        fst A1_aa @ [hd (fst A2_aaa)] = prev_steps @ [formula] \<and>
        snd A1_aa @ [hd (snd A2_aaa)] = prev_justs @ [just])"
proof -
  have h: "(2::nat) \<le> 2" by simp
  from prefix_invariant [OF small_run h small_layer2_member] small_run small_layer2_member h
  show ?thesis by blast
qed

section \<open>The report and the counter\<close>

lemma extend_proof_written: "written (extend_proof k prf st) = written st"
  by (simp add: extend_proof_fold fold_add_proof)

lemma build_layer_written: "written (build_layer k st) = written st"
proof -
  have "written (fold (extend_proof k) ps st) = written st" for ps
    by (induction ps arbitrary: st) (simp_all add: extend_proof_written)
  then show ?thesis by (simp add: build_layer_def)
qed

lemma after_build_written:
  "written (after_build k st) =
     written st @ [GeneratingLength k (length (proofs_at_len st (k - 1))) (k - 1),
       FoundNewOfLength (length (proofs_at_len (after_build k st) k)) k]"
  by (simp add: after_build_def Let_def build_layer_written)

lemma search_loop_written:
  "\<exists>ls. written (search_loop maxlen k st) = written st @ ls \<and> list_all loop_line ls"
proof (induction maxlen k st rule: search_loop.induct)
  case (1 maxlen k st)
  let ?st' = "(after_build k st)\<lparr>seen_steps_at_len :=
                (seen_steps_at_len (after_build k st))(k - 1 := {})\<rparr>"
  let ?G = "GeneratingLength k (length (proofs_at_len st (k - 1))) (k - 1)"
  let ?F = "FoundNewOfLength (length (proofs_at_len (after_build k st) k)) k"
  consider (a) "maxlen < k"
    | (b) "\<not> maxlen < k" "proofs_at_len st (k - 1) = []"
    | (c) "\<not> maxlen < k" "proofs_at_len st (k - 1) \<noteq> []" "proofs_at_len (after_build k st) k = []"
    | (d) "\<not> maxlen < k" "proofs_at_len st (k - 1) \<noteq> []" "proofs_at_len (after_build k st) k \<noteq> []"
    by blast
  then show ?case
  proof cases
    case a
    then have "search_loop maxlen k st = st" by (subst search_loop_unfold) simp
    then have "written (search_loop maxlen k st) = written st @ [] \<and> list_all loop_line []"
      by simp
    then show ?thesis by blast
  next
    case b
    then have "search_loop maxlen k st = write_line (NoProofsOfLength (k - 1)) st"
      by (subst search_loop_unfold) simp
    then have "written (search_loop maxlen k st) = written st @ [NoProofsOfLength (k - 1)]
        \<and> list_all loop_line [NoProofsOfLength (k - 1)]"
      by (simp add: loop_line_def)
    then show ?thesis by blast
  next
    case c
    then have "search_loop maxlen k st = write_line (NoNewOfLength k) (after_build k st)"
      by (subst search_loop_unfold) simp
    then have "written (search_loop maxlen k st) = written st @ [?G, ?F, NoNewOfLength k]
        \<and> list_all loop_line [?G, ?F, NoNewOfLength k]"
      by (simp add: loop_line_def after_build_written)
    then show ?thesis by blast
  next
    case d
    then have eq: "search_loop maxlen k st = search_loop maxlen (Suc k) ?st'"
      by (subst search_loop_unfold) simp
    have "\<exists>ls. written (search_loop maxlen (Suc k) ?st') = written ?st' @ ls \<and> list_all loop_line ls"
      using "1.IH" d by (simp add: after_build_def Let_def)
    then obtain ls where ls: "written (search_loop maxlen (Suc k) ?st') = written ?st' @ ls"
      "list_all loop_line ls" by blast
    have "written ?st' = written st @ [?G, ?F]" by (simp add: after_build_written)
    then have "written (search_loop maxlen k st) = written st @ ([?G, ?F] @ ls)
        \<and> list_all loop_line ([?G, ?F] @ ls)"
      using ls unfolding eq by (simp add: loop_line_def)
    then show ?thesis by blast
  qed
qed

lemma run_written:
  assumes run: "find_all_proofs cfg = Some r"
  shows "\<exists>loop_lines.
     written r =
       [GeneratingAxioms, UsingBasis (length (wff_basis cfg)) (wff_basis cfg),
        FoundLength1 (length (proofs_at_len r 1)), SearchingUpTo (max_length cfg)]
       @ loop_lines
       @ [SearchComplete, FoundTotal (total_proof_count r), FoundWithMP (length (proofs_with_mp r))]
       @ (if proofs_with_mp r = [] then [NoProofsWithMP]
          else FilteringDown (length (best_proofs r)) # print_all (reported r))
     \<and> list_all loop_line loop_lines"
proof -
  from run obtain insts st where insts: "axiom_instances cfg = Some insts"
    and st: "st = search_loop (max_length cfg) 2 (loop_start cfg insts)"
    and r: "r = collect_and_print (max_length cfg) (write_line SearchComplete st)"
    by (rule find_all_proofs_SomeE)
  from search_loop_written [of "max_length cfg" 2 "loop_start cfg insts"]
  obtain ls where ls: "written st = written (loop_start cfg insts) @ ls" "list_all loop_line ls"
    unfolding st by blast
  have L1: "proofs_at_len r 1 = add_new {} insts"
    using run_done(2) [OF run] insts by simp
  have W: "written r = written st
     @ [SearchComplete, FoundTotal (total_proof_count r), FoundWithMP (length (proofs_with_mp r))]
     @ (if proofs_with_mp r = [] then [NoProofsWithMP]
        else FilteringDown (length (best_proofs r)) # print_all (reported r))"
    unfolding r by (subst collect_and_print_written) (simp add: collect_and_print_simps)
  have "written r =
       [GeneratingAxioms, UsingBasis (length (wff_basis cfg)) (wff_basis cfg),
        FoundLength1 (length (proofs_at_len r 1)), SearchingUpTo (max_length cfg)]
       @ ls
       @ [SearchComplete, FoundTotal (total_proof_count r), FoundWithMP (length (proofs_with_mp r))]
       @ (if proofs_with_mp r = [] then [NoProofsWithMP]
          else FilteringDown (length (best_proofs r)) # print_all (reported r))"
    unfolding W ls(1) loop_start_simps L1 by simp
  then show ?thesis using ls(2) by blast
qed


lemma layer_above_bound:
  assumes run: "find_all_proofs cfg = Some r"
    and k: "k = 0 \<or> max 1 (max_length cfg) < k"
  shows "proofs_at_len r k = []"
proof (cases "k = 0")
  case True
  then show ?thesis using run_layers(1) [OF run] by simp
next
  case False
  with k have "2 \<le> k" "\<not> k \<le> max_length cfg" by simp_all
  then show ?thesis using run_layers(2) [OF run, of k] by blast
qed

lemma length_all_proofs:
  assumes run: "find_all_proofs cfg = Some r"
  shows "length (all_proofs r) = (\<Sum>k = 3..max_length cfg. length (proofs_at_len r k))"
proof -
  from run obtain insts st where
    r: "r = collect_and_print (max_length cfg) (write_line SearchComplete st)"
    by (rule find_all_proofs_SomeE)
  have "all_proofs r = concat (map (proofs_at_len r) [3 ..< max_length cfg + 1])"
    unfolding r by (simp add: collect_and_print_simps)
  then have "length (all_proofs r)
      = sum_list (map (\<lambda>k. length (proofs_at_len r k)) [3 ..< max_length cfg + 1])"
    by (simp add: length_concat comp_def)
  also have "\<dots> = (\<Sum>k \<in> set [3 ..< max_length cfg + 1]. length (proofs_at_len r k))"
    by (rule sum_list_distinct_conv_sum_set) simp
  also have "set [3 ..< max_length cfg + 1] = {3..max_length cfg}" by auto
  finally show ?thesis .
qed

lemma count_split:
  fixes f :: "nat \<Rightarrow> nat"
  assumes f0: "f 0 = 0" and above: "\<And>k. max 1 m < k \<Longrightarrow> f k = 0"
  shows "(\<Sum>k < Suc (max 1 m). f k) = (\<Sum>k = 1..max 1 m. f k)"
    and "(\<Sum>k < Suc (max 1 m). f k) = f 1 + f 2 + (\<Sum>k = 3..m. f k)"
proof -
  have 1: "{..<Suc (max 1 m)} = insert 0 {1..max 1 m}" by auto
  show A: "(\<Sum>k < Suc (max 1 m). f k) = (\<Sum>k = 1..max 1 m. f k)"
    unfolding 1 by (simp add: f0)
  show "(\<Sum>k < Suc (max 1 m). f k) = f 1 + f 2 + (\<Sum>k = 3..m. f k)"
  proof (cases "2 \<le> m")
    case True
    then have "{1..max 1 m} = insert 1 (insert 2 {3..m})" by (auto simp: max_def)
    then show ?thesis unfolding A by simp
  next
    case False
    then have "max 1 m = 1" "f 2 = 0" "{3..m} = {}" using above [of 2] by (auto simp: max_def)
    then show ?thesis unfolding A by simp
  qed
qed

lemma add_proof_counts:
  "total_proof_count (add_proof k p st) + length (proofs_at_len st k)
     = total_proof_count st + length (proofs_at_len (add_proof k p st) k)"
  by (simp add: add_proof_def)

lemma loop_line_not_total: "loop_line l \<Longrightarrow> l \<noteq> FoundTotal n"
  by (auto simp: loop_line_def)

lemma found_total_unique:
  assumes run: "find_all_proofs cfg = Some r"
  shows "FoundTotal n \<in> set (written r) \<longleftrightarrow> n = total_proof_count r"
proof -
  from run_written [OF run] obtain ls where
    W: "written r =
       [GeneratingAxioms, UsingBasis (length (wff_basis cfg)) (wff_basis cfg),
        FoundLength1 (length (proofs_at_len r 1)), SearchingUpTo (max_length cfg)]
       @ ls
       @ [SearchComplete, FoundTotal (total_proof_count r), FoundWithMP (length (proofs_with_mp r))]
       @ (if proofs_with_mp r = [] then [NoProofsWithMP]
          else FilteringDown (length (best_proofs r)) # print_all (reported r))"
    and ls: "list_all loop_line ls" by blast
  have 1: "FoundTotal n \<notin> set ls"
    using ls loop_line_not_total [of "FoundTotal n" n] by (auto simp: list_all_iff)
  have 2: "FoundTotal n \<notin> set (print_all (reported r))"
    using print_all_lines [of "FoundTotal n" "reported r"] by auto
  show ?thesis unfolding W using 1 2 by auto
qed

text \<open>
  C10. The total that the report gives is the counter \<open>total_proof_count\<close>, and it is the
  number of the proofs in the layers 1 to \<open>MAX_LENGTH\<close> together (the other layers are
  empty): the proofs of length 1 and 2 are counted, although only those of length 3 and
  more go on to the minimisation. Each call of \<open>add_proof\<close> adds to the counter what it
  adds to the layer.
\<close>

theorem total_proof_count_sum:
  assumes "find_all_proofs cfg = Some r"
  shows "total_proof_count r = (\<Sum>k = 1..max 1 (max_length cfg). length (proofs_at_len r k))
     \<and> (\<forall>k. k = 0 \<or> max 1 (max_length cfg) < k \<longrightarrow> proofs_at_len r k = [])
     \<and> total_proof_count r
          = length (proofs_at_len r 1) + length (proofs_at_len r 2) + length (all_proofs r)
     \<and> (\<forall>n. FoundTotal n \<in> set (written r) \<longleftrightarrow> n = total_proof_count r)
     \<and> (\<forall>k p st. total_proof_count (add_proof k p st) + length (proofs_at_len st k)
           = total_proof_count st + length (proofs_at_len (add_proof k p st) k))"
proof -
  let ?f = "\<lambda>k. length (proofs_at_len r k)"
  have f0: "?f 0 = 0" using layer_above_bound [OF assms, of 0] by simp
  have above: "?f k = 0" if "max 1 (max_length cfg) < k" for k
    using layer_above_bound [OF assms, of k] that by simp
  note cs = count_split [of ?f "max_length cfg", OF f0 above]
  have a: "total_proof_count r = (\<Sum>k = 1..max 1 (max_length cfg). ?f k)"
    using run_layers(4) [OF assms] cs(1) by simp
  have c: "total_proof_count r = ?f 1 + ?f 2 + length (all_proofs r)"
    using run_layers(4) [OF assms] cs(2) length_all_proofs [OF assms] by simp
  show ?thesis
    using a c layer_above_bound [OF assms] found_total_unique [OF assms] add_proof_counts
    by blast
qed

theorem total_proof_count_sum_witness:
  "find_all_proofs small_config = Some small_result \<and>
   total_proof_count small_result
     = (\<Sum>k = 1..max 1 (max_length small_config). length (proofs_at_len small_result k)) \<and>
   proofs_at_len small_result 4 = [] \<and>
   total_proof_count small_result
     = length (proofs_at_len small_result 1) + length (proofs_at_len small_result 2)
       + length (all_proofs small_result) \<and>
   FoundTotal (total_proof_count small_result) \<in> set (written small_result)"
proof -
  have "max 1 (max_length small_config) < 4" by (simp add: small_config_def)
  with total_proof_count_sum [OF small_run] small_run show ?thesis by blast
qed

section \<open>De-duplication\<close>

lemma add_proof_seen:
  assumes "fst p \<in> seen_steps_at_len st k"
  shows "add_proof k p st = st"
  using assms by (simp add: add_proof_def)

lemma add_proof_keeps_record:
  assumes "seen_steps_at_len st k = fst ` set (proofs_at_len st k)"
    and "distinct (map fst (proofs_at_len st k))"
  shows "seen_steps_at_len (add_proof k p st) k = fst ` set (proofs_at_len (add_proof k p st) k)"
    and "distinct (map fst (proofs_at_len (add_proof k p st) k))"
  using assms by (simp_all add: add_proof_def)

lemma offers_keep_first:
  assumes seen: "seen_steps_at_len st k = fst ` set (proofs_at_len st k)"
    and dist: "distinct (map fst (proofs_at_len st k))"
    and mem: "(steps, justs0) \<in> set (proofs_at_len st k)"
  shows "(steps, justs') \<in> set (proofs_at_len (fold (add_proof k) offers st) k) \<longleftrightarrow> justs' = justs0"
proof -
  let ?L = "proofs_at_len st k"
  let ?new = "add_new (seen_steps_at_len st k) offers"
  have L': "proofs_at_len (fold (add_proof k) offers st) k = ?L @ ?new"
    by (simp add: fold_add_proof)
  have "steps \<in> seen_steps_at_len st k" unfolding seen using mem by (metis fst_conv imageI)
  then have "steps \<notin> fst ` set ?new" by (simp add: add_new_fst_image)
  then have new: "(steps, justs') \<notin> set ?new" by (metis fst_conv imageI)
  have old: "(steps, justs') \<in> set ?L \<longleftrightarrow> justs' = justs0"
  proof
    assume a: "(steps, justs') \<in> set ?L"
    have "inj_on fst (set ?L)" using dist by (simp add: distinct_map)
    from inj_onD [OF this _ a mem] show "justs' = justs0" by simp
  next
    assume "justs' = justs0"
    then show "(steps, justs') \<in> set ?L" using mem by simp
  qed
  show ?thesis unfolding L' using new old by simp
qed

text \<open>
  C4. De-duplication looks at the steps only. In a state where the record of the step
  sequences seen at length \<open>k\<close> agrees with layer \<open>k\<close> (as it does from the initial state
  on, since \<open>add_proof\<close> keeps it so), adding a proof whose steps are those of a proof of
  the layer changes nothing, whatever its justifications, neither the layer nor the
  counter; and whatever is offered afterwards, the proof accepted first stays the only
  proof of the layer with these steps. So no layer that \<open>find_all_proofs\<close> builds has
  two proofs with the same steps.
\<close>

theorem dedup_first_kept:
  "(seen_steps_at_len st k = fst ` set (proofs_at_len st k) \<and>
    distinct (map fst (proofs_at_len st k)) \<and>
    (steps, justs0) \<in> set (proofs_at_len st k) \<longrightarrow>
      add_proof k (steps, justs) st = st \<and>
      (\<forall>offers justs'.
         (steps, justs') \<in> set (proofs_at_len (fold (add_proof k) offers st) k)
           \<longleftrightarrow> justs' = justs0)) \<and>
   (seen_steps_at_len st k = fst ` set (proofs_at_len st k) \<and>
    distinct (map fst (proofs_at_len st k)) \<longrightarrow>
      seen_steps_at_len (add_proof k p st) k = fst ` set (proofs_at_len (add_proof k p st) k) \<and>
      distinct (map fst (proofs_at_len (add_proof k p st) k))) \<and>
   seen_steps_at_len initial_state k = fst ` set (proofs_at_len initial_state k) \<and>
   distinct (map fst (proofs_at_len initial_state k)) \<and>
   (find_all_proofs cfg = Some r \<longrightarrow> distinct (map fst (proofs_at_len r k)))"
proof (intro conjI impI allI)
  assume a: "seen_steps_at_len st k = fst ` set (proofs_at_len st k) \<and>
    distinct (map fst (proofs_at_len st k)) \<and>
    (steps, justs0) \<in> set (proofs_at_len st k)"
  then have "fst (steps, justs) \<in> seen_steps_at_len st k" by (metis fst_conv imageI)
  then show "add_proof k (steps, justs) st = st" by (rule add_proof_seen)
  show "(steps, justs') \<in> set (proofs_at_len (fold (add_proof k) offers st) k)
           \<longleftrightarrow> justs' = justs0" for offers justs'
    using a by (intro offers_keep_first) simp_all
next
  assume a: "seen_steps_at_len st k = fst ` set (proofs_at_len st k) \<and>
    distinct (map fst (proofs_at_len st k))"
  show "seen_steps_at_len (add_proof k p st) k = fst ` set (proofs_at_len (add_proof k p st) k)"
    using a by (intro add_proof_keeps_record) simp_all
  show "distinct (map fst (proofs_at_len (add_proof k p st) k))"
    using a by (intro add_proof_keeps_record) simp_all
next
  show "seen_steps_at_len initial_state k = fst ` set (proofs_at_len initial_state k)"
    by (simp add: initial_state_def)
  show "distinct (map fst (proofs_at_len initial_state k))"
    by (simp add: initial_state_def)
next
  assume "find_all_proofs cfg = Some r"
  then show "distinct (map fst (proofs_at_len r k))" by (rule layer_distinct)
qed

theorem dedup_first_kept_witness:
  "seen_steps_at_len (add_proof 1 A1_aa initial_state) 1
     = fst ` set (proofs_at_len (add_proof 1 A1_aa initial_state) 1) \<and>
   distinct (map fst (proofs_at_len (add_proof 1 A1_aa initial_state) 1)) \<and>
   (fst A1_aa, snd A1_aa) \<in> set (proofs_at_len (add_proof 1 A1_aa initial_state) 1) \<and>
   add_proof 1 (fst A1_aa, [str ''MP (1,2)'']) (add_proof 1 A1_aa initial_state)
     = add_proof 1 A1_aa initial_state \<and>
   (fst A1_aa, snd A1_aa)
     \<in> set (proofs_at_len (fold (add_proof 1) [(fst A1_aa, [str ''MP (1,2)'']), A2_aaa]
              (add_proof 1 A1_aa initial_state)) 1) \<and>
   (fst A1_aa, [str ''MP (1,2)''])
     \<notin> set (proofs_at_len (fold (add_proof 1) [(fst A1_aa, [str ''MP (1,2)'']), A2_aaa]
              (add_proof 1 A1_aa initial_state)) 1) \<and>
   find_all_proofs small_config = Some small_result \<and>
   distinct (map fst (proofs_at_len small_result 2))"
proof -
  let ?st = "add_proof 1 A1_aa initial_state"
  have h: "seen_steps_at_len ?st 1 = fst ` set (proofs_at_len ?st 1) \<and>
    distinct (map fst (proofs_at_len ?st 1)) \<and>
    (fst A1_aa, snd A1_aa) \<in> set (proofs_at_len ?st 1)"
    by (simp add: add_proof_def initial_state_def)
  have ne: "[str ''MP (1,2)''] \<noteq> snd A1_aa"
    by (simp add: A1_aa_def string_evals)
  note t = dedup_first_kept [where st = ?st and k = 1 and steps = "fst A1_aa"
      and ?justs0.0 = "snd A1_aa" and justs = "[str ''MP (1,2)'']"]
  from t h have 1: "add_proof 1 (fst A1_aa, [str ''MP (1,2)'']) ?st = ?st" by blast
  from t h have 2: "(fst A1_aa, justs') \<in> set (proofs_at_len (fold (add_proof 1) offers ?st) 1)
           \<longleftrightarrow> justs' = snd A1_aa" for offers justs' by blast
  from dedup_first_kept [where cfg = small_config and r = small_result and k = 2] small_run
  have 3: "distinct (map fst (proofs_at_len small_result 2))" by blast
  show ?thesis
    using h 1 2 [of "snd A1_aa"] 2 [of "[str ''MP (1,2)'']"] ne 3 small_run by blast
qed

section \<open>Option B\<close>


lemma apply_mp_Some:
  "apply_mp p s = Some q \<longleftrightarrow> s = expected_form p @ q @ str '')''"
proof
  assume a: "apply_mp p s = Some q"
  let ?ef = "expected_form p"
  from a have sw: "startswith s ?ef" and ew: "endswith s (str '')'')"
    and q: "q = slice_from_to_last s (length ?ef)"
    by (auto simp: apply_mp_def split: if_splits)
  from sw have "s = ?ef @ drop (length ?ef) s"
    unfolding startswith_def by (metis append_take_drop_id)
  then obtain rest where s: "s = ?ef @ rest" ..
  from ew have "s \<noteq> []" "drop (length s - 1) s = [41]"
    unfolding endswith_def by (auto simp: str_def)
  then have last: "last s = 41"
    by (metis last_drop last.simps diff_less length_greater_0_conv zero_less_one)
  have efl: "last ?ef = 32" "?ef \<noteq> []" by (simp_all add: expected_form_def str_def)
  have rest: "rest \<noteq> []"
  proof
    assume "rest = []"
    with s have "s = ?ef" by simp
    with last efl show False by simp
  qed
  have "butlast s = ?ef @ butlast rest"
    unfolding s by (simp add: butlast_append rest)
  then have q': "q = butlast rest"
    unfolding q slice_from_to_last_def by simp
  have "last rest = 41"
    using last rest unfolding s by simp
  then have "rest = q @ [41]"
    unfolding q' using rest by (metis append_butlast_last_id)
  then show "s = expected_form p @ q @ str '')''"
    using s by (simp add: str_def)
next
  assume "s = expected_form p @ q @ str '')''"
  then show "apply_mp p s = Some q" by (simp add: apply_mp_match)
qed




lemma nested_concat_split:
  assumes "i < n" "j < n"
  shows "concat (map (\<lambda>i. concat (map (\<lambda>j. m i j) [0 ..< n])) [0 ..< n]) =
     (concat (map (\<lambda>i. concat (map (\<lambda>j. m i j) [0 ..< n])) [0 ..< i])
        @ concat (map (\<lambda>j. m i j) [0 ..< j]))
     @ m i j
     @ (concat (map (\<lambda>j. m i j) [Suc j ..< n])
        @ concat (map (\<lambda>i. concat (map (\<lambda>j. m i j) [0 ..< n])) [Suc i ..< n]))"
proof -
  have split: "[0 ..< n] = [0 ..< x] @ x # [Suc x ..< n]" if "x < n" for x
  proof -
    have "[0 ..< x + (n - x)] = [0 ..< x] @ [x ..< x + (n - x)]"
      by (rule upt_add_eq_append) simp
    moreover have "x + (n - x) = n" using that by simp
    ultimately have "[0 ..< n] = [0 ..< x] @ [x ..< n]" by simp
    then show ?thesis using that by (simp add: upt_conv_Cons)
  qed
  have inner: "concat (map (\<lambda>j. m i j) [0 ..< n]) =
      concat (map (\<lambda>j. m i j) [0 ..< j]) @ m i j @ concat (map (\<lambda>j. m i j) [Suc j ..< n])"
    by (subst split [OF assms(2)]) simp
  have "concat (map (\<lambda>i. concat (map (\<lambda>j. m i j) [0 ..< n])) [0 ..< n]) =
      concat (map (\<lambda>i. concat (map (\<lambda>j. m i j) [0 ..< n])) [0 ..< i])
      @ concat (map (\<lambda>j. m i j) [0 ..< n])
      @ concat (map (\<lambda>i. concat (map (\<lambda>j. m i j) [0 ..< n])) [Suc i ..< n])"
    by (subst (2) split [OF assms(1)]) simp
  then show ?thesis unfolding inner by simp
qed


lemma mp_accepted:
  assumes run: "find_all_proofs cfg = Some r"
    and k: "2 \<le> k" "k \<le> max_length cfg"
    and P: "prev \<in> set (proofs_at_len r (k - 1))"
    and ij: "i < k - 1" "j < k - 1" "i \<noteq> j"
    and mp: "apply_mp (fst prev ! i) (fst prev ! j) = Some q"
    and q: "q \<noteq> []"
    and noax: "\<And>a. a \<in> set (proofs_at_len r 1) \<Longrightarrow> hd (fst a) \<noteq> q"
    and nomp: "\<And>i' j'. i' < k - 1 \<Longrightarrow> j' < k - 1 \<Longrightarrow> i' \<noteq> j' \<Longrightarrow> i' < i \<or> (i' = i \<and> j' < j)
                 \<Longrightarrow> apply_mp (fst prev ! i') (fst prev ! j') \<noteq> Some q"
  shows "(fst prev @ [q], snd prev @ [mp_just i j]) \<in> set (proofs_at_len r k)"
proof -
  let ?axs = "proofs_at_len r 1"
  let ?n = "k - 1"
  let ?m = "mp_candidates prev"
  let ?c = "(fst prev @ [q], snd prev @ [mp_just i j])"
  let ?A = "concat (map (\<lambda>i. concat (map (\<lambda>j. ?m i j) [0 ..< ?n])) [0 ..< i])"
  let ?B = "concat (map (\<lambda>j. ?m i j) [0 ..< j])"
  let ?C = "concat (map (\<lambda>j. ?m i j) [Suc j ..< ?n])"
  let ?D = "concat (map (\<lambda>i. concat (map (\<lambda>j. ?m i j) [0 ..< ?n])) [Suc i ..< ?n])"
  from P have "proofs_at_len r (k - 1) \<noteq> []" by auto
  from run_layers(3) [OF run k this]
  have Lk: "proofs_at_len r k = layer_of k ?axs (proofs_at_len r (k - 1))" .
  have mij: "?m i j = [?c]" using ij(3) mp q by (simp add: mp_candidates_def)
  have split: "proof_candidates k ?axs prev
      = (axiom_candidates ?axs prev @ ?A @ ?B) @ ?c # (?C @ ?D)"
    unfolding proof_candidates_def
    by (subst nested_concat_split [OF ij(1) ij(2), of ?m]) (simp add: mij)
  have first: "fst ?c \<notin> fst ` set (axiom_candidates ?axs prev @ ?A @ ?B)"
  proof
    assume "fst ?c \<in> fst ` set (axiom_candidates ?axs prev @ ?A @ ?B)"
    then obtain c' where c': "c' \<in> set (axiom_candidates ?axs prev @ ?A @ ?B)"
      and eq: "fst ?c = fst c'" ..
    from c' consider (ax) "c' \<in> set (axiom_candidates ?axs prev)"
      | (A) "c' \<in> set ?A" | (B) "c' \<in> set ?B" by auto
    then show False
    proof cases
      case ax
      then obtain a where a: "a \<in> set ?axs"
        and "c' = (fst prev @ [hd (fst a)], snd prev @ [hd (snd a)])"
        unfolding axiom_candidates_def set_map image_iff by blast
      with eq have "hd (fst a) = q" by simp
      with noax [OF a] show False by simp
    next
      case A
      then obtain i' j' where ij': "i' < i" "j' < ?n" and m: "c' \<in> set (?m i' j')"
        by (auto simp: Bex_def)
      from m obtain q' where ne: "i' \<noteq> j'"
        and mp': "apply_mp (fst prev ! i') (fst prev ! j') = Some q'"
        and c'eq: "c' = (fst prev @ [q'], snd prev @ [mp_just i' j'])"
        unfolding mp_candidates_member by blast
      from eq c'eq have "q' = q" by simp
      moreover have "i' < ?n" using ij'(1) ij(1) by simp
      ultimately show False using nomp [of i' j'] ij' ne mp' by simp
    next
      case B
      then obtain j' where ij': "j' < j" and m: "c' \<in> set (?m i j')"
        by (auto simp: Bex_def)
      from m obtain q' where ne: "i \<noteq> j'"
        and mp': "apply_mp (fst prev ! i) (fst prev ! j') = Some q'"
        and c'eq: "c' = (fst prev @ [q'], snd prev @ [mp_just i j'])"
        unfolding mp_candidates_member by blast
      from eq c'eq have "q' = q" by simp
      moreover have "j' < ?n" using ij' ij(2) by simp
      ultimately show False using nomp [of i j'] ij(1) ij' ne mp' by simp
    qed
  qed
  show ?thesis
    unfolding Lk
    by (rule layer_of_member_first [OF layer_distinct [OF run] P split first])
qed



lemma small_tidy: "tidy_axioms small_config"
  by (simp add: tidy_axioms_def small_instances A1_aa_def A2_aaa_def A3_aa_def string_evals)

lemma small_layer2_A1_A2:
  "(fst A1_aa @ fst A2_aaa, snd A1_aa @ snd A2_aaa) \<in> set (proofs_at_len small_result 2)"
  using small_layer2_member by (simp add: A2_aaa_def)

lemma small_apply_mp:
  "apply_mp ((fst A1_aa @ fst A2_aaa) ! 0) ((fst A1_aa @ fst A2_aaa) ! 1) = Some mp_consequent"
  by (simp add: apply_mp_Some expected_form_def A1_aa_def A2_aaa_def mp_consequent_def string_evals)

section \<open>The search loop and its early stops\<close>

lemma run_loop_lines:
  assumes run: "find_all_proofs cfg = Some r"
  shows "FoundNewOfLength n k \<in> set (written r) \<longleftrightarrow>
           2 \<le> k \<and> k \<le> max_length cfg \<and> (\<forall>k'. 1 \<le> k' \<and> k' < k \<longrightarrow> proofs_at_len r k' \<noteq> [])
           \<and> n = length (proofs_at_len r k)"
    and "NoProofsOfLength m \<in> set (written r) \<longleftrightarrow>
           m = 1 \<and> 2 \<le> max_length cfg \<and> proofs_at_len r 1 = []"
    and "NoNewOfLength k \<in> set (written r) \<longleftrightarrow>
           2 \<le> k \<and> k \<le> max_length cfg \<and> (\<forall>k'. 1 \<le> k' \<and> k' < k \<longrightarrow> proofs_at_len r k' \<noteq> [])
           \<and> proofs_at_len r k = []"
proof -
  note s = run_done(1) [OF run, unfolded search_done_def]
  note s4 = s [THEN conjunct2, THEN conjunct2, THEN conjunct2, THEN conjunct2]
  show "FoundNewOfLength n k \<in> set (written r) \<longleftrightarrow>
           2 \<le> k \<and> k \<le> max_length cfg \<and> (\<forall>k'. 1 \<le> k' \<and> k' < k \<longrightarrow> proofs_at_len r k' \<noteq> [])
           \<and> n = length (proofs_at_len r k)"
    by (rule s4 [THEN conjunct1, rule_format])
  show "NoProofsOfLength m \<in> set (written r) \<longleftrightarrow>
           m = 1 \<and> 2 \<le> max_length cfg \<and> proofs_at_len r 1 = []"
    by (rule s4 [THEN conjunct2, THEN conjunct1, rule_format])
  show "NoNewOfLength k \<in> set (written r) \<longleftrightarrow>
           2 \<le> k \<and> k \<le> max_length cfg \<and> (\<forall>k'. 1 \<le> k' \<and> k' < k \<longrightarrow> proofs_at_len r k' \<noteq> [])
           \<and> proofs_at_len r k = []"
    by (rule s4 [THEN conjunct2, THEN conjunct2, rule_format])
qed

lemma early_stop_iff:
  assumes run: "find_all_proofs cfg = Some r"
  shows "(\<exists>m. NoProofsOfLength m \<in> set (written r) \<or> NoNewOfLength m \<in> set (written r)) \<longleftrightarrow>
     (\<exists>k. 2 \<le> k \<and> k \<le> max_length cfg \<and>
          (proofs_at_len r (k - 1) = [] \<or> proofs_at_len r k = []))"
proof
  assume "\<exists>m. NoProofsOfLength m \<in> set (written r) \<or> NoNewOfLength m \<in> set (written r)"
  then obtain m where "NoProofsOfLength m \<in> set (written r) \<or> NoNewOfLength m \<in> set (written r)" ..
  then show "\<exists>k. 2 \<le> k \<and> k \<le> max_length cfg \<and>
          (proofs_at_len r (k - 1) = [] \<or> proofs_at_len r k = [])"
  proof
    assume "NoProofsOfLength m \<in> set (written r)"
    then have "2 \<le> max_length cfg" "proofs_at_len r (2 - 1) = []"
      unfolding run_loop_lines(2) [OF run] by simp_all
    then have "(2::nat) \<le> 2 \<and> 2 \<le> max_length cfg \<and>
          (proofs_at_len r (2 - 1) = [] \<or> proofs_at_len r 2 = [])" by simp
    then show ?thesis by blast
  next
    assume "NoNewOfLength m \<in> set (written r)"
    then have "2 \<le> m \<and> m \<le> max_length cfg \<and>
          (proofs_at_len r (m - 1) = [] \<or> proofs_at_len r m = [])"
      unfolding run_loop_lines(3) [OF run] by simp
    then show ?thesis by blast
  qed
next
  assume "\<exists>k. 2 \<le> k \<and> k \<le> max_length cfg \<and>
          (proofs_at_len r (k - 1) = [] \<or> proofs_at_len r k = [])"
  then obtain k where k: "2 \<le> k" "k \<le> max_length cfg"
    and e: "proofs_at_len r (k - 1) = [] \<or> proofs_at_len r k = []" by blast
  show "\<exists>m. NoProofsOfLength m \<in> set (written r) \<or> NoNewOfLength m \<in> set (written r)"
  proof (cases "proofs_at_len r 1 = []")
    case True
    then have "NoProofsOfLength 1 \<in> set (written r)"
      unfolding run_loop_lines(2) [OF run] using k by simp
    then show ?thesis by blast
  next
    case L1: False
    have ex: "\<exists>k'. 1 \<le> k' \<and> k' \<le> k \<and> proofs_at_len r k' = []"
    proof (cases "proofs_at_len r (k - 1) = []")
      case True
      then have "1 \<le> k - 1 \<and> k - 1 \<le> k \<and> proofs_at_len r (k - 1) = []" using k by simp
      then show ?thesis by blast
    next
      case False
      then have "1 \<le> k \<and> k \<le> k \<and> proofs_at_len r k = []" using e k by simp
      then show ?thesis by blast
    qed
    define m where "m = (LEAST k'. 1 \<le> k' \<and> k' \<le> k \<and> proofs_at_len r k' = [])"
    from ex have m: "1 \<le> m \<and> m \<le> k \<and> proofs_at_len r m = []"
      unfolding m_def by (rule LeastI_ex)
    have least: "proofs_at_len r k' \<noteq> []" if "1 \<le> k'" "k' < m" for k'
    proof
      assume "proofs_at_len r k' = []"
      then have "1 \<le> k' \<and> k' \<le> k \<and> proofs_at_len r k' = []" using that m by simp
      then have "m \<le> k'" unfolding m_def by (rule Least_le)
      with that show False by simp
    qed
    have "m \<noteq> 1" using m L1 by auto
    then have "2 \<le> m" using m by simp
    moreover have "m \<le> max_length cfg" using m k by simp
    moreover have "\<forall>k'. 1 \<le> k' \<and> k' < m \<longrightarrow> proofs_at_len r k' \<noteq> []"
      using least by blast
    ultimately have "NoNewOfLength m \<in> set (written r)"
      unfolding run_loop_lines(3) [OF run] using m by blast
    then show ?thesis by blast
  qed
qed


lemma re_sub_from_chars: "set (re_sub_from var repl prev s) \<subseteq> set s \<union> set repl"
proof (induction var repl prev s rule: re_sub_from.induct)
  case (1 var repl prev)
  show ?case by auto
next
  case (2 var repl prev c cs)
  have "set (drop (length var) (c # cs)) \<subseteq> set (c # cs)" by (rule set_drop_subset)
  with 2 show ?case by (auto split: if_splits)
qed

lemma re_sub_word_modelled:
  assumes "modelled_text var" "modelled_text repl" "BACKSLASH \<notin> set repl" "modelled_text s"
  shows "\<exists>s'. re_sub_word var repl s = Some s' \<and> modelled_text s'"
proof -
  have "modelled_text (re_sub_from var repl None s)"
    using assms(2,4) re_sub_from_chars [of var repl None s]
    unfolding modelled_text_def list_all_iff by blast
  then show ?thesis using assms by (simp add: re_sub_word_def)
qed

lemma substitute_loop_modelled:
  assumes "\<forall>(var, wff)\<in>set pairs. modelled_text var \<and> modelled_text wff \<and> BACKSLASH \<notin> set wff"
    and "modelled_text formula"
  shows "\<exists>s'. substitute_loop pairs formula = Some s' \<and> modelled_text s'"
  using assms
proof (induction pairs arbitrary: formula)
  case Nil
  then show ?case by simp
next
  case (Cons p pairs)
  obtain var wff where p: "p = (var, wff)" by (cases p)
  from Cons.prems(1) have "modelled_text var" "modelled_text wff" "BACKSLASH \<notin> set wff"
    by (simp_all add: p)
  from re_sub_word_modelled [OF this Cons.prems(2)]
  obtain s' where s': "re_sub_word var wff formula = Some s'" "modelled_text s'" by blast
  from Cons.prems(1) have "\<forall>(var, wff)\<in>set pairs.
      modelled_text var \<and> modelled_text wff \<and> BACKSLASH \<notin> set wff" by simp
  from Cons.IH [OF this s'(2)] show ?case by (simp add: p s'(1))
qed

lemma update_subset: "set (AList.update k v d) \<subseteq> insert (k, v) (set d)"
  by (induction d) auto

lemma dict_zip_subset: "set (dict_zip ks vs) \<subseteq> set ks \<times> set vs"
proof -
  have "set (fold (\<lambda>(k, v) d. AList.update k v d) ps d) \<subseteq> set ps \<union> set d" for ps
    and d :: "('a \<times> 'b) list"
  proof (induction ps arbitrary: d)
    case Nil
    show ?case by simp
  next
    case (Cons p ps)
    obtain k v where p: "p = (k, v)" by (cases p)
    have "set (fold (\<lambda>(k, v) d. AList.update k v d) ps (AList.update k v d))
        \<subseteq> set ps \<union> set (AList.update k v d)" by (rule Cons.IH)
    also have "\<dots> \<subseteq> set ps \<union> insert (k, v) (set d)"
      using update_subset [of k v d] by blast
    finally show ?case by (auto simp: p)
  qed
  from this [of "zip ks vs" "[]"] have "set (dict_zip ks vs) \<subseteq> set (zip ks vs)"
    by (simp add: dict_zip_def)
  also have "\<dots> \<subseteq> set ks \<times> set vs" by (auto dest: set_zip_leftD set_zip_rightD)
  finally show ?thesis .
qed

lemma product_lists_subset:
  "combo \<in> set (product_lists (replicate n basis)) \<Longrightarrow> set combo \<subseteq> set basis"
proof (induction n arbitrary: combo)
  case 0
  then show ?case by simp
next
  case (Suc n)
  from Suc.prems obtain x xs where x: "x \<in> set basis"
    and xs: "xs \<in> set (product_lists (replicate n basis))" and c: "combo = x # xs"
    by auto
  from Suc.IH [OF xs] x show ?case unfolding c by simp
qed

lemma substitute_modelled:
  assumes "modelled_text template" "list_all modelled_text vars"
    and "list_all (\<lambda>w. modelled_text w \<and> BACKSLASH \<notin> set w) basis"
    and "combo \<in> set (product_lists (replicate n basis))"
  shows "\<exists>formula. substitute template (dict_zip vars combo) = Some formula"
proof -
  have "set (sorted_keys (dict_zip vars combo)) = set (dict_zip vars combo)"
    by (simp add: sorted_keys_def)
  also have "\<dots> \<subseteq> set vars \<times> set combo" by (rule dict_zip_subset)
  also have "\<dots> \<subseteq> set vars \<times> set basis"
    using product_lists_subset [OF assms(4)] by blast
  finally have "\<forall>(var, wff)\<in>set (sorted_keys (dict_zip vars combo)).
      modelled_text var \<and> modelled_text wff \<and> BACKSLASH \<notin> set wff"
    using assms(2,3) unfolding list_all_iff by blast
  from substitute_loop_modelled [OF this assms(1)] show ?thesis
    unfolding substitute_def by blast
qed

lemma those_Some: "(\<And>x. x \<in> set xs \<Longrightarrow> \<exists>y. x = Some y) \<Longrightarrow> \<exists>ys. those xs = Some ys"
proof (induction xs)
  case Nil
  show ?case by simp
next
  case (Cons x xs)
  then obtain y ys where "x = Some y" "those xs = Some ys" by (metis list.set_intros)
  then show ?case by simp
qed

lemma config_modelled_instances:
  assumes "config_modelled cfg"
  shows "\<exists>insts. axiom_instances cfg = Some insts"
proof -
  define h where "h = (\<lambda>(name, template, vars).
                 those (map (axiom_instance name template vars)
                   (product_lists (replicate (length vars) (wff_basis cfg)))))"
  have basis: "list_all (\<lambda>w. modelled_text w \<and> BACKSLASH \<notin> set w) (wff_basis cfg)"
    using assms by (simp add: config_modelled_def)
  have outer: "\<exists>y. x = Some y" if "x \<in> set (map h (axiom_templates cfg))" for x
  proof -
    from that obtain name template vars where t: "(name, template, vars) \<in> set (axiom_templates cfg)"
      and x: "x = h (name, template, vars)" by auto
    from assms t have m: "modelled_text template" "list_all modelled_text vars"
      unfolding config_modelled_def list_all_iff by auto
    have inner: "\<exists>y. i = Some y"
      if "i \<in> set (map (axiom_instance name template vars)
                   (product_lists (replicate (length vars) (wff_basis cfg))))" for i
    proof -
      from that obtain combo
        where c: "combo \<in> set (product_lists (replicate (length vars) (wff_basis cfg)))"
          and i: "i = axiom_instance name template vars combo" by auto
      from substitute_modelled [OF m basis c] show ?thesis
        unfolding i axiom_instance_def Let_def by auto
    qed
    have "\<exists>ys. those (map (axiom_instance name template vars)
                   (product_lists (replicate (length vars) (wff_basis cfg)))) = Some ys"
      by (rule those_Some) (rule inner)
    then show ?thesis unfolding x h_def by simp
  qed
  have "\<exists>pss. those (map h (axiom_templates cfg)) = Some pss"
    by (rule those_Some) (rule outer)
  then obtain pss where "those (map h (axiom_templates cfg)) = Some pss"
    by blast
  then show ?thesis unfolding axiom_instances_def h_def by simp
qed



lemma search_complete_written:
  assumes run: "find_all_proofs cfg = Some r"
  shows "SearchComplete \<in> set (written r)"
proof -
  from run_written [OF run] obtain ls where
    "written r =
       [GeneratingAxioms, UsingBasis (length (wff_basis cfg)) (wff_basis cfg),
        FoundLength1 (length (proofs_at_len r 1)), SearchingUpTo (max_length cfg)]
       @ ls
       @ [SearchComplete, FoundTotal (total_proof_count r), FoundWithMP (length (proofs_with_mp r))]
       @ (if proofs_with_mp r = [] then [NoProofsWithMP]
          else FilteringDown (length (best_proofs r)) # print_all (reported r))" by blast
  then show ?thesis by simp
qed

lemma small_config_modelled: "config_modelled small_config"
  by (simp add: config_modelled_def small_config_def AXIOM_TEMPLATES_def
      A1_template_def A2_template_def A3_template_def modelled_text_def string_evals)

text \<open>
  C8. The loop over \<open>k = 2, \<dots>, MAX_LENGTH\<close> is the function \<open>search_loop\<close>, which is total:
  each call either stops or goes on with \<open>k + 1\<close>, never beyond \<open>MAX_LENGTH + 1\<close>. So
  \<open>find_all_proofs\<close> returns for every configuration of the model. Its report says where
  the loop went: the body ran for \<open>k\<close> (it reported the size of layer \<open>k\<close>) exactly when
  \<open>2 \<le> k \<le> MAX_LENGTH\<close> and no layer before \<open>k\<close> is empty; it stopped with the notice that
  layer \<open>k - 1\<close> is empty exactly when that layer is empty at the check before layer
  \<open>k\<close> is built (which can only be layer 1), and with the notice that no new proofs of
  length \<open>k\<close> were found exactly when layer \<open>k\<close> came out empty. A notice of an early
  stop is written if and only if for some \<open>k\<close> of the range layer \<open>k - 1\<close> or layer \<open>k\<close>
  is empty. After either stop the function goes on to its summary, as after the last
  round.
\<close>

theorem search_loop_stops:
  "(config_modelled cfg \<longrightarrow> (\<exists>r. find_all_proofs cfg = Some r)) \<and>
   (find_all_proofs cfg = Some r \<longrightarrow>
      (\<forall>n k. FoundNewOfLength n k \<in> set (written r) \<longleftrightarrow>
           2 \<le> k \<and> k \<le> max_length cfg \<and> (\<forall>k'. 1 \<le> k' \<and> k' < k \<longrightarrow> proofs_at_len r k' \<noteq> [])
           \<and> n = length (proofs_at_len r k)) \<and>
      (\<forall>m. NoProofsOfLength m \<in> set (written r) \<longleftrightarrow>
           m = 1 \<and> 2 \<le> max_length cfg \<and> proofs_at_len r 1 = []) \<and>
      (\<forall>k. NoNewOfLength k \<in> set (written r) \<longleftrightarrow>
           2 \<le> k \<and> k \<le> max_length cfg \<and> (\<forall>k'. 1 \<le> k' \<and> k' < k \<longrightarrow> proofs_at_len r k' \<noteq> [])
           \<and> proofs_at_len r k = []) \<and>
      ((\<exists>m. NoProofsOfLength m \<in> set (written r) \<or> NoNewOfLength m \<in> set (written r)) \<longleftrightarrow>
       (\<exists>k. 2 \<le> k \<and> k \<le> max_length cfg \<and>
          (proofs_at_len r (k - 1) = [] \<or> proofs_at_len r k = []))) \<and>
      SearchComplete \<in> set (written r))"
proof (intro conjI impI allI)
  assume "config_modelled cfg"
  then obtain insts where "axiom_instances cfg = Some insts"
    using config_modelled_instances by blast
  then show "\<exists>r. find_all_proofs cfg = Some r" by (rule find_all_proofs_returns)
next
  assume run: "find_all_proofs cfg = Some r"
  show "FoundNewOfLength n k \<in> set (written r) \<longleftrightarrow>
           2 \<le> k \<and> k \<le> max_length cfg \<and> (\<forall>k'. 1 \<le> k' \<and> k' < k \<longrightarrow> proofs_at_len r k' \<noteq> [])
           \<and> n = length (proofs_at_len r k)" for n k
    by (rule run_loop_lines(1) [OF run])
  show "NoProofsOfLength m \<in> set (written r) \<longleftrightarrow>
           m = 1 \<and> 2 \<le> max_length cfg \<and> proofs_at_len r 1 = []" for m
    by (rule run_loop_lines(2) [OF run])
  show "NoNewOfLength k \<in> set (written r) \<longleftrightarrow>
           2 \<le> k \<and> k \<le> max_length cfg \<and> (\<forall>k'. 1 \<le> k' \<and> k' < k \<longrightarrow> proofs_at_len r k' \<noteq> [])
           \<and> proofs_at_len r k = []" for k
    by (rule run_loop_lines(3) [OF run])
  show "(\<exists>m. NoProofsOfLength m \<in> set (written r) \<or> NoNewOfLength m \<in> set (written r)) \<longleftrightarrow>
       (\<exists>k. 2 \<le> k \<and> k \<le> max_length cfg \<and>
          (proofs_at_len r (k - 1) = [] \<or> proofs_at_len r k = []))"
    by (rule early_stop_iff [OF run])
  show "SearchComplete \<in> set (written r)"
    by (rule search_complete_written [OF run])
qed

theorem search_loop_stops_witness:
  "config_modelled small_config \<and>
   find_all_proofs small_config = Some small_result \<and>
   FoundNewOfLength (length (proofs_at_len small_result 2)) 2 \<in> set (written small_result) \<and>
   NoProofsOfLength 1 \<notin> set (written small_result) \<and>
   SearchComplete \<in> set (written small_result)"
proof -
  note t = search_loop_stops [of small_config small_result]
  have L1: "proofs_at_len small_result 1 \<noteq> []" unfolding small_layer1 by simp
  have "\<forall>k'. 1 \<le> k' \<and> k' < 2 \<longrightarrow> proofs_at_len small_result k' \<noteq> []"
  proof (intro allI impI)
    fix k' :: nat assume "1 \<le> k' \<and> k' < 2"
    then have "k' = 1" by simp
    then show "proofs_at_len small_result k' \<noteq> []" using L1 by simp
  qed
  moreover have "(2::nat) \<le> 2" "2 \<le> max_length small_config" by (simp_all add: small_config_def)
  ultimately have 1: "FoundNewOfLength (length (proofs_at_len small_result 2)) 2
      \<in> set (written small_result)"
    using t small_run by blast
  have 2: "NoProofsOfLength 1 \<notin> set (written small_result)"
    using t small_run L1 by blast
  have 3: "SearchComplete \<in> set (written small_result)"
    using t small_run by blast
  show ?thesis using small_config_modelled small_run 1 2 3 by blast
qed

section \<open>The text of the justifications\<close>

lemma decimal_of_hd:
  assumes "decimal_of s m" "0 < m"
  shows "hd s \<noteq> 48"
proof (cases "1 < length s")
  case True
  then show ?thesis using assms(1) by (simp add: decimal_of_def)
next
  case False
  with assms(1) have "length s = 1" by (cases s) (simp_all add: decimal_of_def)
  then obtain c where s: "s = [c]" by (cases s) simp_all
  from assms show ?thesis by (auto simp: decimal_of_def s)
qed

lemma str_of_nat_decimal: "decimal_of (str_of_nat n) n"
proof (induction n rule: str_of_nat.induct)
  case (1 n)
  show ?case
  proof (cases "n < 10")
    case True
    then have "str_of_nat n = [48 + n]" by (subst str_of_nat.simps) simp
    then show ?thesis using True by (simp add: decimal_of_def)
  next
    case False
    let ?s = "str_of_nat (n div 10)"
    have eq: "str_of_nat n = ?s @ [48 + n mod 10]"
      using False by (subst str_of_nat.simps) simp
    have IH: "decimal_of ?s (n div 10)" using "1.IH" False by simp
    have pos: "0 < n div 10" using False by simp
    have hd: "hd ?s \<noteq> 48" by (rule decimal_of_hd [OF IH pos])
    have ne: "?s \<noteq> []" using IH by (simp add: decimal_of_def)
    have val: "foldl (\<lambda>acc c. 10 * acc + (c - 48)) 0 ?s = n div 10"
      using IH by (simp add: decimal_of_def)
    have dig: "list_all (\<lambda>c. 48 \<le> c \<and> c \<le> 57) ?s" using IH by (simp add: decimal_of_def)
    have "n mod 10 < 10" by simp
    then have d: "48 + n mod 10 \<le> 57" by linarith
    show ?thesis
      unfolding eq decimal_of_def using ne hd val dig d by (simp add: hd_append)
  qed
qed

lemma mp_just_text:
  "mp_just i j = str ''MP ('' @ str_of_nat (i + 1) @ str '','' @ str_of_nat (j + 1) @ str '')''"
  by (simp add: mp_just_def)

lemma axiom_just_text:
  "axiom_just name sub_dict =
     name @ str '' ['' @ join (str '', '') (map (\<lambda>(k, v). k @ str ''='' @ v) sub_dict) @ str '']''"
  by (simp add: axiom_just_def)

lemma small_mp_just: "mp_just 0 1 = str ''MP (1,2)''"
  by (simp add: mp_just_def str_of_nat.simps string_evals)



section \<open>Extension by Modus Ponens\<close>








section \<open>Soundness of the accepted proofs\<close>

lemma layer1_axiom_step:
  assumes run: "find_all_proofs cfg = Some r"
    and a: "a \<in> set (proofs_at_len r 1)"
  shows "axiom_step cfg (hd (fst a)) (hd (snd a))"
proof -
  from layer1_member [OF run a] obtain name template vars combo formula where
    t: "(name, template, vars) \<in> set (axiom_templates cfg)"
    and c: "combo \<in> set (product_lists (replicate (length vars) (wff_basis cfg)))"
    and s: "substitute template (dict_zip vars combo) = Some formula"
    and eq: "a = ([formula], [axiom_just name (dict_zip vars combo)])" by blast
  have "\<exists>combo\<in>set (product_lists (replicate (length vars) (wff_basis cfg))).
          substitute template (dict_zip vars combo) = Some (hd (fst a)) \<and>
          hd (snd a) = name @ str '' ['' @ join (str '', '')
              (map (\<lambda>(k, v). k @ str ''='' @ v) (dict_zip vars combo)) @ str '']''"
    using c s eq axiom_just_text [of name "dict_zip vars combo"] by auto
  then show ?thesis unfolding axiom_step_def using t by blast
qed

lemma mp_stepI:
  assumes "i < n" "j < n" "i \<noteq> j" "apply_mp (steps ! i) (steps ! j) = Some (steps ! n)"
    "justs ! n = mp_just i j"
  shows "mp_step steps justs n"
proof -
  have "justs ! n = str ''MP ('' @ str_of_nat (i + 1) @ str '','' @ str_of_nat (j + 1) @ str '')''"
    using assms(5) mp_just_text [of i j] by simp
  with assms(1-4) show ?thesis unfolding mp_step_def by blast
qed

lemma mp_stepE:
  assumes "mp_step steps justs n"
  obtains i j where "i < n" "j < n" "i \<noteq> j" "apply_mp (steps ! i) (steps ! j) = Some (steps ! n)"
    "justs ! n = mp_just i j"
proof -
  from assms obtain i j where ij: "i < n" "j < n" "i \<noteq> j"
    "apply_mp (steps ! i) (steps ! j) = Some (steps ! n)"
    and t: "justs ! n
      = str ''MP ('' @ str_of_nat (i + 1) @ str '','' @ str_of_nat (j + 1) @ str '')''"
    unfolding mp_step_def by blast
  from t have "justs ! n = mp_just i j" using mp_just_text [of i j] by simp
  with ij that show ?thesis by blast
qed

lemma steps_justified:
  assumes run: "find_all_proofs cfg = Some r"
  shows "(steps, justs) \<in> set (proofs_at_len r k) \<Longrightarrow> n < k \<Longrightarrow>
     axiom_step cfg (steps ! n) (justs ! n) \<or> mp_step steps justs n"
proof (induction k arbitrary: steps justs n)
  case 0
  then show ?case by simp
next
  case (Suc k)
  show ?case
  proof (cases "k = 0")
    case True
    then have m: "(steps, justs) \<in> set (proofs_at_len r 1)" and n: "n = 0"
      using Suc.prems by simp_all
    from layer_shape [OF run m] have "steps \<noteq> []" "justs \<noteq> []" by auto
    then have "steps ! 0 = hd steps" "justs ! 0 = hd justs"
      by (simp_all add: hd_conv_nth)
    then show ?thesis using layer1_axiom_step [OF run m] n by simp
  next
    case False
    then have k2: "2 \<le> Suc k" by simp
    from layer_member_step [OF run k2 Suc.prems(1)]
    obtain prev where P: "prev \<in> set (proofs_at_len r k)"
      and c: "(steps, justs) \<in> set (proof_candidates (Suc k) (proofs_at_len r 1) prev)" by auto
    have len: "length (fst prev) = k" "length (snd prev) = k"
      using layer_shape [OF run P] by simp_all
    from candidate_extends [OF c] obtain formula just
      where eq: "steps = fst prev @ [formula]" "justs = snd prev @ [just]" by auto
    show ?thesis
    proof (cases "n < k")
      case True
      have old: "steps ! m = fst prev ! m" "justs ! m = snd prev ! m" if "m \<le> n" for m
        using that True len by (simp_all add: eq nth_append)
      have "(fst prev, snd prev) \<in> set (proofs_at_len r k)" using P by simp
      from Suc.IH [OF this True]
      consider "axiom_step cfg (fst prev ! n) (snd prev ! n)" | "mp_step (fst prev) (snd prev) n"
        by blast
      then show ?thesis
      proof cases
        case 1
        then show ?thesis using old [of n] by simp
      next
        case 2
        then obtain i j where ij: "i < n" "j < n" "i \<noteq> j"
          and mp: "apply_mp (fst prev ! i) (fst prev ! j) = Some (fst prev ! n)"
          and j: "snd prev ! n = mp_just i j"
          by (rule mp_stepE)
        have "apply_mp (steps ! i) (steps ! j) = Some (steps ! n)" "justs ! n = mp_just i j"
          using mp j ij old [of i] old [of j] old [of n] by simp_all
        with ij have "mp_step steps justs n" by (rule mp_stepI)
        then show ?thesis ..
      qed
    next
      case False
      then have n: "n = k" using Suc.prems(2) by simp
      have last: "steps ! n = formula" "justs ! n = just"
        using len by (simp_all add: eq n nth_append)
      from c consider a where "a \<in> set (proofs_at_len r 1)"
          "(steps, justs) = (fst prev @ [hd (fst a)], snd prev @ [hd (snd a)])"
        | i j where "i < Suc k - 1" "j < Suc k - 1" "(steps, justs) \<in> set (mp_candidates prev i j)"
        unfolding proof_candidates_member by blast
      then show ?thesis
      proof cases
        case 1
        then have "formula = hd (fst a)" "just = hd (snd a)" using eq by simp_all
        then show ?thesis using layer1_axiom_step [OF run 1(1)] last by simp
      next
        case 2
        from 2(3) obtain q where ne: "i \<noteq> j"
          and mp: "apply_mp (fst prev ! i) (fst prev ! j) = Some q"
          and ceq: "(steps, justs) = (fst prev @ [q], snd prev @ [mp_just i j])"
          unfolding mp_candidates_member by blast
        have fq: "formula = q" "just = mp_just i j" using ceq eq by simp_all
        have ij: "i < n" "j < n" using 2(1,2) n by simp_all
        have "steps ! i = fst prev ! i" "steps ! j = fst prev ! j"
          using ij n len by (simp_all add: eq nth_append)
        then have "apply_mp (steps ! i) (steps ! j) = Some (steps ! n)" "justs ! n = mp_just i j"
          using mp last fq by simp_all
        with ij ne have "mp_step steps justs n" by (rule mp_stepI)
        then show ?thesis ..
      qed
    qed
  qed
qed

lemma small_layer3_mp: "small_mp_proof \<in> set (proofs_at_len small_result 3)"
proof -
  let ?prev = "(fst A1_aa @ fst A2_aaa, snd A1_aa @ snd A2_aaa)"
  have k: "(2::nat) \<le> 3" "3 \<le> max_length small_config" by (simp_all add: small_config_def)
  have P: "?prev \<in> set (proofs_at_len small_result (3 - 1))"
    using small_layer2_A1_A2 by simp
  have ij: "(0::nat) < 3 - 1" "(1::nat) < 3 - 1" "(0::nat) \<noteq> 1" by simp_all
  have mp: "apply_mp (fst ?prev ! 0) (fst ?prev ! 1) = Some mp_consequent"
    using small_apply_mp by simp
  have q: "mp_consequent \<noteq> []" by (simp add: mp_consequent_def string_evals)
  have "(fst ?prev @ [mp_consequent], snd ?prev @ [mp_just 0 1])
      \<in> set (proofs_at_len small_result 3)"
  proof (rule mp_accepted [OF small_run k P ij mp q])
    show "hd (fst a) \<noteq> mp_consequent" if "a \<in> set (proofs_at_len small_result 1)" for a
      using that unfolding small_layer1
      by (auto simp: A1_aa_def A2_aaa_def A3_aa_def mp_consequent_def string_evals)
    show "apply_mp (fst ?prev ! i') (fst ?prev ! j') \<noteq> Some mp_consequent"
      if "i' < 3 - 1" "j' < 3 - 1" "i' \<noteq> j'" "i' < 0 \<or> (i' = 0 \<and> j' < 1)" for i' j'
      using that by simp
  qed
  then show ?thesis unfolding small_mp_just by (simp add: small_mp_proof_def A1_aa_def A2_aaa_def)
qed

text \<open>
  C9. Soundness of the accepted proofs. In every proof of every layer, each step is
  either an axiom instance, the substitution of one of the templates under an assignment
  of basis formulas, justified by the text \<open>name [v1=w1, v2=w2]\<close> of the name of the
  template and this assignment; or it is exactly what Modus Ponens returns for two
  earlier steps at different positions \<open>i\<close> and \<open>j\<close>, justified by the text \<open>MP (i+1,j+1)\<close>,
  where the text of a number is its decimal numeral.
\<close>

theorem accepted_proofs_sound:
  assumes "find_all_proofs cfg = Some r"
    and "(steps, justs) \<in> set (proofs_at_len r k)"
    and "n < length steps"
  shows "(axiom_step cfg (steps ! n) (justs ! n) \<or> mp_step steps justs n) \<and>
    (\<forall>m. decimal_of (str_of_nat m) m)"
proof -
  have "length steps = k" using layer_shape [OF assms(1,2)] by simp
  with assms(3) have "n < k" by simp
  with assms(1,2) have "axiom_step cfg (steps ! n) (justs ! n) \<or> mp_step steps justs n"
    by (rule steps_justified)
  then show ?thesis using str_of_nat_decimal by blast
qed


theorem accepted_proofs_sound_witness:
  "find_all_proofs small_config = Some small_result \<and>
   (fst small_mp_proof, snd small_mp_proof) \<in> set (proofs_at_len small_result 3) \<and>
   0 < length (fst small_mp_proof) \<and> 2 < length (fst small_mp_proof) \<and>
   axiom_step small_config (fst small_mp_proof ! 0) (snd small_mp_proof ! 0) \<and>
   snd small_mp_proof ! 0 = str ''A1 [A=a, B=a]'' \<and>
   \<not> mp_step (fst small_mp_proof) (snd small_mp_proof) 0 \<and>
   \<not> axiom_step small_config (fst small_mp_proof ! 2) (snd small_mp_proof ! 2) \<and>
   mp_step (fst small_mp_proof) (snd small_mp_proof) 2 \<and>
   apply_mp (fst small_mp_proof ! 0) (fst small_mp_proof ! 1) = Some (fst small_mp_proof ! 2) \<and>
   snd small_mp_proof ! 2 = str ''MP (1,2)'' \<and>
   decimal_of (str_of_nat 12) 12 \<and> str_of_nat 12 = str ''12''"
proof -
  have m: "(fst small_mp_proof, snd small_mp_proof) \<in> set (proofs_at_len small_result 3)"
    using small_layer3_mp by simp
  have n: "0 < length (fst small_mp_proof)" "2 < length (fst small_mp_proof)"
    by (simp_all add: small_mp_proof_def A1_aa_def A2_aaa_def)
  have j0: "snd small_mp_proof ! 0 = str ''A1 [A=a, B=a]''"
    by (simp add: small_mp_proof_def)
  have j2: "snd small_mp_proof ! 2 = str ''MP (1,2)''"
    by (simp add: small_mp_proof_def)
  have no0: "\<not> mp_step (fst small_mp_proof) (snd small_mp_proof) 0"
    by (simp add: mp_step_def)
  have no2: "\<not> axiom_step small_config (fst small_mp_proof ! 2) (snd small_mp_proof ! 2)"
    unfolding j2
    by (simp add: axiom_step_def small_config_def AXIOM_TEMPLATES_def string_evals)
  have mp: "apply_mp (fst small_mp_proof ! 0) (fst small_mp_proof ! 1)
      = Some (fst small_mp_proof ! 2)"
    using small_apply_mp by (simp add: small_mp_proof_def A1_aa_def A2_aaa_def)
  have twelve: "str_of_nat 12 = str ''12''"
    by (simp add: str_of_nat.simps string_evals)
  from accepted_proofs_sound [OF small_run m n(1)] no0
  have ax: "axiom_step small_config (fst small_mp_proof ! 0) (snd small_mp_proof ! 0)" by blast
  from accepted_proofs_sound [OF small_run m n(2)] no2
  have "mp_step (fst small_mp_proof) (snd small_mp_proof) 2"
    and "decimal_of (str_of_nat 12) 12" by blast+
  with small_run m n j0 j2 no0 no2 mp twelve ax show ?thesis by blast
qed

section \<open>The Theorem Minimizer\<close>

lemma simpler_eq_refl: "simpler_eq p p"
  by (simp add: simpler_eq_def)

lemma simpler_eq_trans: "simpler_eq a b \<Longrightarrow> simpler_eq b c \<Longrightarrow> simpler_eq a c"
  unfolding simpler_eq_def by linarith

lemma consider_proof_cases:
  obtains (new) "map_of best (last (fst p)) = None"
      "consider_proof p best = AList.update (last (fst p)) p best"
    | (better) cur where "map_of best (last (fst p)) = Some cur"
      "simpler_eq p cur" "consider_proof p best = AList.update (last (fst p)) p best"
    | (kept) cur where "map_of best (last (fst p)) = Some cur"
      "simpler_eq cur p" "consider_proof p best = best"
proof (cases "map_of best (last (fst p))")
  case None
  then have "consider_proof p best = AList.update (last (fst p)) p best"
    by (simp add: consider_proof_def Let_def)
  with None show ?thesis by (rule new)
next
  case (Some cur)
  show ?thesis
  proof (cases "sum_list (map length (fst p)) < sum_list (map length (fst cur)) \<or>
      (sum_list (map length (fst p)) = sum_list (map length (fst cur)) \<and>
       length (fst p) < length (fst cur))")
    case True
    then have "consider_proof p best = AList.update (last (fst p)) p best"
      using Some by (simp add: consider_proof_def Let_def get_proof_complexity_def)
    moreover from True have "simpler_eq p cur" unfolding simpler_eq_def by linarith
    ultimately show ?thesis using Some better by blast
  next
    case False
    then have "consider_proof p best = best"
      using Some by (auto simp add: consider_proof_def Let_def get_proof_complexity_def)
    moreover from False have "simpler_eq cur p" unfolding simpler_eq_def by linarith
    ultimately show ?thesis using Some kept by blast
  qed
qed

lemma best_inv_update:
  assumes inv: "best_inv ps best"
    and le: "\<And>cur. map_of best (last (fst p)) = Some cur \<Longrightarrow> simpler_eq p cur"
  shows "best_inv (ps @ [p]) (AList.update (last (fst p)) p best)"
proof -
  let ?best = "AList.update (last (fst p)) p best"
  have m: "map_of ?best = (map_of best)(last (fst p) \<mapsto> p)"
    by (rule update_conv')
  have d: "distinct (map fst ?best)"
    using inv by (simp add: best_inv_def distinct_update)
  have e: "b \<in> set (ps @ [p]) \<and> last (fst b) = t" if "map_of ?best t = Some b" for t b
  proof (cases "t = last (fst p)")
    case True
    then show ?thesis using that by (simp add: m)
  next
    case False
    then have "map_of best t = Some b" using that by (simp add: m)
    moreover from inv have "\<forall>t b. map_of best t = Some b \<longrightarrow> b \<in> set ps \<and> last (fst b) = t"
      unfolding best_inv_def by blast
    ultimately have "b \<in> set ps \<and> last (fst b) = t" by blast
    then show ?thesis by simp
  qed
  have c: "\<exists>b. map_of ?best (last (fst c)) = Some b \<and> simpler_eq b c"
    if "c \<in> set (ps @ [p])" for c
  proof (cases "last (fst c) = last (fst p)")
    case False
    then have "c \<in> set ps" using that by auto
    then obtain b where "map_of best (last (fst c)) = Some b" "simpler_eq b c"
      using inv unfolding best_inv_def by blast
    then show ?thesis using False by (simp add: m)
  next
    case True
    have "simpler_eq p c"
    proof (cases "c = p")
      case True
      then show ?thesis by (simp add: simpler_eq_refl)
    next
      case False
      then have "c \<in> set ps" using that by simp
      then obtain b where b: "map_of best (last (fst c)) = Some b" "simpler_eq b c"
        using inv unfolding best_inv_def by blast
      from b(1) have "simpler_eq p b" using le True by simp
      then show ?thesis using b(2) by (rule simpler_eq_trans)
    qed
    then show ?thesis using True by (simp add: m)
  qed
  show ?thesis unfolding best_inv_def using d e c by blast
qed

lemma best_inv_keep:
  assumes inv: "best_inv ps best"
    and cur: "map_of best (last (fst p)) = Some cur" "simpler_eq cur p"
  shows "best_inv (ps @ [p]) best"
proof -
  have d: "distinct (map fst best)" using inv by (simp add: best_inv_def)
  have e: "b \<in> set (ps @ [p]) \<and> last (fst b) = t" if "map_of best t = Some b" for t b
  proof -
    from inv have "\<forall>t b. map_of best t = Some b \<longrightarrow> b \<in> set ps \<and> last (fst b) = t"
      unfolding best_inv_def by blast
    with that have "b \<in> set ps \<and> last (fst b) = t" by blast
    then show ?thesis by simp
  qed
  have c: "\<exists>b. map_of best (last (fst c)) = Some b \<and> simpler_eq b c"
    if "c \<in> set (ps @ [p])" for c
  proof (cases "c = p")
    case True
    then show ?thesis using cur by simp
  next
    case False
    then have "c \<in> set ps" using that by simp
    then show ?thesis using inv unfolding best_inv_def by blast
  qed
  show ?thesis unfolding best_inv_def using d e c by blast
qed

lemma best_inv_consider:
  assumes inv: "best_inv ps best"
  shows "best_inv (ps @ [p]) (consider_proof p best)"
proof (cases rule: consider_proof_cases [of best p])
  case new
  show ?thesis unfolding new(2) by (rule best_inv_update [OF inv]) (simp add: new(1))
next
  case (better cur)
  show ?thesis unfolding better(3)
    by (rule best_inv_update [OF inv]) (use better in simp)
next
  case (kept cur)
  show ?thesis unfolding kept(3) by (rule best_inv_keep [OF inv kept(1,2)])
qed

lemma best_inv_fold:
  "best_inv seen best \<Longrightarrow> best_inv (seen @ ps) (fold consider_proof ps best)"
proof (induction ps arbitrary: seen best)
  case Nil
  then show ?case by simp
next
  case (Cons p ps)
  from best_inv_consider [OF Cons.prems] have "best_inv (seen @ [p]) (consider_proof p best)" .
  from Cons.IH [OF this] show ?case by simp
qed

lemma best_inv_result: "best_inv ps (best_proofs_for_theorem ps)"
proof -
  have "best_inv [] []" by (simp add: best_inv_def)
  from best_inv_fold [OF this, of ps] show ?thesis by (simp add: best_proofs_for_theorem_def)
qed

lemma uses_mp_iff: "uses_mp p \<longleftrightarrow> (\<exists>just\<in>set (snd p). take 2 just = str ''MP'')"
proof -
  have "startswith just (str ''MP'') \<longleftrightarrow> take 2 just = str ''MP''" for just
    by (simp add: startswith_def str_def numeral_2_eq_2)
  then show ?thesis by (simp add: uses_mp_def list_ex_iff)
qed

lemma run_collect:
  assumes run: "find_all_proofs cfg = Some r"
  shows "all_proofs r = concat (map (proofs_at_len r) [3 ..< max_length cfg + 1])"
    and "proofs_with_mp r = filter uses_mp (all_proofs r)"
    and "best_proofs r = best_proofs_for_theorem (proofs_with_mp r)"
    and "reported r = final_proofs (best_proofs r)"
proof -
  from run obtain insts st where
    r: "r = collect_and_print (max_length cfg) (write_line SearchComplete st)"
    by (rule find_all_proofs_SomeE)
  show "all_proofs r = concat (map (proofs_at_len r) [3 ..< max_length cfg + 1])"
    "proofs_with_mp r = filter uses_mp (all_proofs r)"
    "best_proofs r = best_proofs_for_theorem (proofs_with_mp r)"
    "reported r = final_proofs (best_proofs r)"
    unfolding r by (simp_all add: collect_and_print_simps)
qed

lemma candidate_iff:
  assumes run: "find_all_proofs cfg = Some r"
  shows "c \<in> set (proofs_with_mp r) \<longleftrightarrow>
     (\<exists>k. 3 \<le> k \<and> k \<le> max_length cfg \<and> c \<in> set (proofs_at_len r k)) \<and>
     (\<exists>just\<in>set (snd c). take 2 just = str ''MP'')"
proof -
  have "c \<in> set (all_proofs r) \<longleftrightarrow>
      (\<exists>k. 3 \<le> k \<and> k \<le> max_length cfg \<and> c \<in> set (proofs_at_len r k))"
    unfolding run_collect(1) [OF run] by auto
  then show ?thesis unfolding run_collect(2) [OF run] by (simp add: uses_mp_iff)
qed


text \<open>
  C3. The Theorem Minimizer. The candidates are the proofs of the layers 3 to
  \<open>MAX_LENGTH\<close> that have a justification starting with \<open>MP\<close>. Every entry of the mapping
  \<open>best_proofs\<close> pairs a theorem with a candidate whose last step is this theorem, and the
  sum of the lengths of the steps of this proof is at most that of every candidate with
  the same last step; where the two sums are equal, the retained proof has at most as
  many steps. The mapping has one entry for each theorem and an entry for the last step
  of every candidate.
\<close>

theorem best_proofs_minimal:
  assumes run: "find_all_proofs cfg = Some r"
  shows "(\<forall>t b. (t, b) \<in> set (best_proofs r) \<longrightarrow>
       last (fst b) = t \<and>
       (\<exists>k. 3 \<le> k \<and> k \<le> max_length cfg \<and> b \<in> set (proofs_at_len r k)) \<and>
       (\<exists>just\<in>set (snd b). take 2 just = str ''MP'') \<and>
       (\<forall>k c. 3 \<le> k \<and> k \<le> max_length cfg \<and> c \<in> set (proofs_at_len r k) \<and>
              (\<exists>just\<in>set (snd c). take 2 just = str ''MP'') \<and> last (fst c) = t \<longrightarrow>
          sum_list (map length (fst b)) \<le> sum_list (map length (fst c)) \<and>
          (sum_list (map length (fst b)) = sum_list (map length (fst c)) \<longrightarrow>
             length (fst b) \<le> length (fst c)))) \<and>
     (\<forall>k c. 3 \<le> k \<and> k \<le> max_length cfg \<and> c \<in> set (proofs_at_len r k) \<and>
            (\<exists>just\<in>set (snd c). take 2 just = str ''MP'') \<longrightarrow>
        (\<exists>b. (last (fst c), b) \<in> set (best_proofs r))) \<and>
     distinct (map fst (best_proofs r)) \<and>
     (\<forall>steps. get_proof_complexity steps = sum_list (map length steps))"
proof -
  have inv: "best_inv (proofs_with_mp r) (best_proofs r)"
    unfolding run_collect(3) [OF run] by (rule best_inv_result)
  then have d: "distinct (map fst (best_proofs r))" by (simp add: best_inv_def)
  have mem: "(t, b) \<in> set (best_proofs r) \<longleftrightarrow> map_of (best_proofs r) t = Some b" for t b
    using d by simp
  from inv have e: "\<forall>t b. map_of (best_proofs r) t = Some b \<longrightarrow>
      b \<in> set (proofs_with_mp r) \<and> last (fst b) = t"
    unfolding best_inv_def by blast
  from inv have c: "\<forall>c\<in>set (proofs_with_mp r).
      \<exists>b. map_of (best_proofs r) (last (fst c)) = Some b \<and> simpler_eq b c"
    unfolding best_inv_def by blast
  have cand: "c \<in> set (proofs_with_mp r)"
    if "3 \<le> k \<and> k \<le> max_length cfg \<and> c \<in> set (proofs_at_len r k) \<and>
        (\<exists>just\<in>set (snd c). take 2 just = str ''MP'')" for k c
    unfolding candidate_iff [OF run] using that by blast
  have entry: "last (fst b) = t \<and>
       (\<exists>k. 3 \<le> k \<and> k \<le> max_length cfg \<and> b \<in> set (proofs_at_len r k)) \<and>
       (\<exists>just\<in>set (snd b). take 2 just = str ''MP'')"
    if "(t, b) \<in> set (best_proofs r)" for t b
  proof -
    from that have "map_of (best_proofs r) t = Some b" by (simp only: mem)
    with e have "b \<in> set (proofs_with_mp r)" "last (fst b) = t" by blast+
    then show ?thesis unfolding candidate_iff [OF run] by blast
  qed
  have least: "sum_list (map length (fst b)) \<le> sum_list (map length (fst c)) \<and>
          (sum_list (map length (fst b)) = sum_list (map length (fst c)) \<longrightarrow>
             length (fst b) \<le> length (fst c))"
    if tb: "(t, b) \<in> set (best_proofs r)"
      and k: "3 \<le> k \<and> k \<le> max_length cfg \<and> c \<in> set (proofs_at_len r k) \<and>
              (\<exists>just\<in>set (snd c). take 2 just = str ''MP'')"
      and t: "last (fst c) = t" for t b k c
  proof -
    from tb have m: "map_of (best_proofs r) t = Some b" by (simp only: mem)
    from cand [OF k] c obtain b' where
      b': "map_of (best_proofs r) (last (fst c)) = Some b'" "simpler_eq b' c" by blast
    from b'(1) m t have "b' = b" by simp
    with b'(2) have "simpler_eq b c" by simp
    then show ?thesis unfolding simpler_eq_def by linarith
  qed
  have has: "\<exists>b. (last (fst c), b) \<in> set (best_proofs r)"
    if k: "3 \<le> k \<and> k \<le> max_length cfg \<and> c \<in> set (proofs_at_len r k) \<and>
              (\<exists>just\<in>set (snd c). take 2 just = str ''MP'')" for k c
  proof -
    from cand [OF k] c obtain b' where
      "map_of (best_proofs r) (last (fst c)) = Some b'" by blast
    then have "(last (fst c), b') \<in> set (best_proofs r)" by (simp only: mem)
    then show ?thesis ..
  qed
  have cplx: "\<forall>steps. get_proof_complexity steps = sum_list (map length steps)"
    by (simp add: get_proof_complexity_def)
  have first: "\<forall>t b. (t, b) \<in> set (best_proofs r) \<longrightarrow>
       last (fst b) = t \<and>
       (\<exists>k. 3 \<le> k \<and> k \<le> max_length cfg \<and> b \<in> set (proofs_at_len r k)) \<and>
       (\<exists>just\<in>set (snd b). take 2 just = str ''MP'') \<and>
       (\<forall>k c. 3 \<le> k \<and> k \<le> max_length cfg \<and> c \<in> set (proofs_at_len r k) \<and>
              (\<exists>just\<in>set (snd c). take 2 just = str ''MP'') \<and> last (fst c) = t \<longrightarrow>
          sum_list (map length (fst b)) \<le> sum_list (map length (fst c)) \<and>
          (sum_list (map length (fst b)) = sum_list (map length (fst c)) \<longrightarrow>
             length (fst b) \<le> length (fst c)))"
  proof (intro allI impI)
    fix t b
    assume tb: "(t, b) \<in> set (best_proofs r)"
    have "\<forall>k c. 3 \<le> k \<and> k \<le> max_length cfg \<and> c \<in> set (proofs_at_len r k) \<and>
              (\<exists>just\<in>set (snd c). take 2 just = str ''MP'') \<and> last (fst c) = t \<longrightarrow>
          sum_list (map length (fst b)) \<le> sum_list (map length (fst c)) \<and>
          (sum_list (map length (fst b)) = sum_list (map length (fst c)) \<longrightarrow>
             length (fst b) \<le> length (fst c))"
    proof (intro allI impI)
      fix k c
      assume a: "3 \<le> k \<and> k \<le> max_length cfg \<and> c \<in> set (proofs_at_len r k) \<and>
              (\<exists>just\<in>set (snd c). take 2 just = str ''MP'') \<and> last (fst c) = t"
      then have "3 \<le> k \<and> k \<le> max_length cfg \<and> c \<in> set (proofs_at_len r k) \<and>
              (\<exists>just\<in>set (snd c). take 2 just = str ''MP'')" and "last (fst c) = t" by blast+
      with tb show "sum_list (map length (fst b)) \<le> sum_list (map length (fst c)) \<and>
          (sum_list (map length (fst b)) = sum_list (map length (fst c)) \<longrightarrow>
             length (fst b) \<le> length (fst c))" by (rule least)
    qed
    with entry [OF tb] show "last (fst b) = t \<and>
       (\<exists>k. 3 \<le> k \<and> k \<le> max_length cfg \<and> b \<in> set (proofs_at_len r k)) \<and>
       (\<exists>just\<in>set (snd b). take 2 just = str ''MP'') \<and>
       (\<forall>k c. 3 \<le> k \<and> k \<le> max_length cfg \<and> c \<in> set (proofs_at_len r k) \<and>
              (\<exists>just\<in>set (snd c). take 2 just = str ''MP'') \<and> last (fst c) = t \<longrightarrow>
          sum_list (map length (fst b)) \<le> sum_list (map length (fst c)) \<and>
          (sum_list (map length (fst b)) = sum_list (map length (fst c)) \<longrightarrow>
             length (fst b) \<le> length (fst c)))" by blast
  qed
  have second: "\<forall>k c. 3 \<le> k \<and> k \<le> max_length cfg \<and> c \<in> set (proofs_at_len r k) \<and>
            (\<exists>just\<in>set (snd c). take 2 just = str ''MP'') \<longrightarrow>
        (\<exists>b. (last (fst c), b) \<in> set (best_proofs r))"
    using has by blast
  from first second d cplx show ?thesis by (intro conjI)
qed


theorem best_proofs_minimal_witness:
  "find_all_proofs small_config = Some small_result \<and>
   (3::nat) \<le> 3 \<and> 3 \<le> max_length small_config \<and>
   small_mp_proof \<in> set (proofs_at_len small_result 3) \<and>
   snd small_mp_proof ! 2 \<in> set (snd small_mp_proof) \<and>
   take 2 (snd small_mp_proof ! 2) = str ''MP'' \<and>
   last (fst small_mp_proof) = mp_consequent \<and>
   sum_list (map length (fst small_mp_proof)) = 69 \<and>
   (\<exists>b. (mp_consequent, b) \<in> set (best_proofs small_result) \<and>
        last (fst b) = mp_consequent \<and>
        b \<in> set (proofs_at_len small_result 3) \<and>
        (\<exists>just\<in>set (snd b). take 2 just = str ''MP'') \<and>
        sum_list (map length (fst b)) \<le> 69 \<and> length (fst b) = 3)"
proof -
  note t = best_proofs_minimal [OF small_run]
  have k: "(3::nat) \<le> 3" "3 \<le> max_length small_config" by (simp_all add: small_config_def)
  have m: "small_mp_proof \<in> set (proofs_at_len small_result 3)" by (rule small_layer3_mp)
  have j: "snd small_mp_proof ! 2 \<in> set (snd small_mp_proof)"
    "take 2 (snd small_mp_proof ! 2) = str ''MP''"
    by (simp_all add: small_mp_proof_def str_def)
  have l: "last (fst small_mp_proof) = mp_consequent"
    by (simp add: small_mp_proof_def)
  have s: "sum_list (map length (fst small_mp_proof)) = 69" "length (fst small_mp_proof) = 3"
    by (simp_all add: small_mp_proof_def A1_aa_def A2_aaa_def mp_consequent_def string_evals)
  have cand: "3 \<le> (3::nat) \<and> 3 \<le> max_length small_config \<and>
      small_mp_proof \<in> set (proofs_at_len small_result 3) \<and>
      (\<exists>just\<in>set (snd small_mp_proof). take 2 just = str ''MP'')"
    using k m j by blast
  from t cand obtain b where b: "(last (fst small_mp_proof), b) \<in> set (best_proofs small_result)"
    by blast
  then have b': "(mp_consequent, b) \<in> set (best_proofs small_result)" unfolding l .
  from t b' have b1: "last (fst b) = mp_consequent"
    and b2: "\<exists>k. 3 \<le> k \<and> k \<le> max_length small_config \<and> b \<in> set (proofs_at_len small_result k)"
    and b3: "\<exists>just\<in>set (snd b). take 2 just = str ''MP''"
    by blast+
  from b2 have b4: "b \<in> set (proofs_at_len small_result 3)"
    by (auto simp: small_config_def)
  from t b' cand l
  have "sum_list (map length (fst b)) \<le> sum_list (map length (fst small_mp_proof)) \<and>
        (sum_list (map length (fst b)) = sum_list (map length (fst small_mp_proof)) \<longrightarrow>
           length (fst b) \<le> length (fst small_mp_proof))"
    by blast
  then have b5: "sum_list (map length (fst b)) \<le> 69"
    unfolding s by blast
  have b6: "length (fst b) = 3" using layer_shape [OF small_run b4] by simp
  from b' b1 b4 b3 b5 b6 have "\<exists>b. (mp_consequent, b) \<in> set (best_proofs small_result) \<and>
        last (fst b) = mp_consequent \<and>
        b \<in> set (proofs_at_len small_result 3) \<and>
        (\<exists>just\<in>set (snd b). take 2 just = str ''MP'') \<and>
        sum_list (map length (fst b)) \<le> 69 \<and> length (fst b) = 3"
    by blast
  with small_run k m j l s(1) show ?thesis by blast
qed

section \<open>The final report\<close>

lemma print_all_texts:
  assumes "\<forall>p\<in>set ps. fst p \<noteq> []"
  shows "\<exists>texts. map (\<lambda>p. print_proof (fst p) (snd p)) ps = map Some texts \<and>
     print_all ps = map PrintedProof texts"
  using assms
proof (induction ps)
  case Nil
  then show ?case by (simp add: print_all_def)
next
  case (Cons p ps)
  then obtain texts where t: "map (\<lambda>p. print_proof (fst p) (snd p)) ps = map Some texts"
    "print_all ps = map PrintedProof texts" by auto
  from Cons.prems have "fst p \<noteq> []" by simp
  then obtain text1 where p: "print_proof (fst p) (snd p) = Some text1"
    by (simp add: print_proof_def Let_def)
  have "print_all (p # ps) = PrintedProof text1 # print_all ps"
    using p by (simp add: print_all_def case_prod_beta)
  then have "map (\<lambda>p. print_proof (fst p) (snd p)) (p # ps) = map Some (text1 # texts) \<and>
     print_all (p # ps) = map PrintedProof (text1 # texts)"
    using t p by simp
  then show ?case by blast
qed

lemma filter_loop_lines:
  "list_all loop_line ls \<Longrightarrow> filter (\<lambda>l. \<exists>t. l = PrintedProof t) ls = []"
  by (induction ls) (auto simp: loop_line_def)

lemma filter_printed: "filter (\<lambda>l. \<exists>t. l = PrintedProof t) (map PrintedProof texts) = map PrintedProof texts"
  by (induction texts) auto

lemma best_entry_candidate:
  assumes run: "find_all_proofs cfg = Some r"
    and tb: "(t, b) \<in> set (best_proofs r)"
  shows "b \<in> set (proofs_with_mp r)" "last (fst b) = t"
proof -
  have inv: "best_inv (proofs_with_mp r) (best_proofs r)"
    unfolding run_collect(3) [OF run] by (rule best_inv_result)
  then have d: "distinct (map fst (best_proofs r))" by (simp add: best_inv_def)
  from tb d have "map_of (best_proofs r) t = Some b" by simp
  moreover from inv have "\<forall>t b. map_of (best_proofs r) t = Some b \<longrightarrow>
      b \<in> set (proofs_with_mp r) \<and> last (fst b) = t"
    unfolding best_inv_def by blast
  ultimately show "b \<in> set (proofs_with_mp r)" "last (fst b) = t" by blast+
qed

lemma best_theorems_distinct:
  assumes run: "find_all_proofs cfg = Some r"
  shows "distinct (map (\<lambda>p. last (fst p)) (map snd (best_proofs r)))"
proof -
  have inv: "best_inv (proofs_with_mp r) (best_proofs r)"
    unfolding run_collect(3) [OF run] by (rule best_inv_result)
  then have d: "distinct (map fst (best_proofs r))" by (simp add: best_inv_def)
  have "last (fst (snd x)) = fst x" if "x \<in> set (best_proofs r)" for x
    using best_entry_candidate(2) [OF run, of "fst x" "snd x"] that by simp
  then have e: "map (\<lambda>x. last (fst (snd x))) (best_proofs r) = map fst (best_proofs r)"
    by (simp add: map_eq_conv)
  have "map (\<lambda>p. last (fst p)) (map snd (best_proofs r))
      = map (\<lambda>x. last (fst (snd x))) (best_proofs r)" by (simp add: comp_def)
  then show ?thesis unfolding e using d by (simp only:)
qed

lemma reported_basic:
  assumes run: "find_all_proofs cfg = Some r"
  shows "set (reported r) = snd ` set (best_proofs r)"
    and "length (reported r) = length (best_proofs r)"
    and "sorted (map (\<lambda>p. (length (fst p), last (fst p))) (reported r))"
    and "distinct (map (\<lambda>p. last (fst p)) (reported r))"
proof -
  have rep: "reported r = sort_key (\<lambda>p. (length (fst p), last (fst p))) (map snd (best_proofs r))"
    unfolding run_collect(4) [OF run] final_proofs_def ..
  show "set (reported r) = snd ` set (best_proofs r)" unfolding rep by simp
  show "length (reported r) = length (best_proofs r)" unfolding rep by simp
  show "sorted (map (\<lambda>p. (length (fst p), last (fst p))) (reported r))"
    unfolding rep by (rule sorted_sort_key)
  have di: "distinct (map snd (best_proofs r)) \<and>
      inj_on (\<lambda>p. last (fst p)) (set (map snd (best_proofs r)))"
    using best_theorems_distinct [OF run] unfolding distinct_map .
  have "distinct (reported r) \<and> inj_on (\<lambda>p. last (fst p)) (set (reported r))"
    unfolding rep using di by simp
  then show "distinct (map (\<lambda>p. last (fst p)) (reported r))"
    unfolding distinct_map .
qed

lemma reported_nonempty:
  assumes run: "find_all_proofs cfg = Some r"
    and p: "p \<in> set (reported r)"
  shows "\<exists>k. 3 \<le> k \<and> k \<le> max_length cfg \<and> p \<in> set (proofs_at_len r k) \<and> length (fst p) = k"
proof -
  from p obtain t where "(t, p) \<in> set (best_proofs r)"
    unfolding reported_basic(1) [OF run] by auto
  from best_entry_candidate(1) [OF run this] obtain k where
    k: "3 \<le> k" "k \<le> max_length cfg" "p \<in> set (proofs_at_len r k)"
    unfolding candidate_iff [OF run] by blast
  from layer_shape [OF run k(3)] have "length (fst p) = k" by simp
  with k show ?thesis by blast
qed

lemma key_less_iff:
  fixes s t :: pystr and m n :: nat
  shows "(m, s) < (n, t) \<longleftrightarrow> m < n \<or> (m = n \<and> (s, t) \<in> lexord {(a, b). a < b})"
  by (auto simp: less_prod_def list_less_def)


lemma reported_order:
  assumes run: "find_all_proofs cfg = Some r"
    and i: "i < length (reported r)" and j: "j < length (reported r)"
  shows "(length (fst (reported r ! i)), last (fst (reported r ! i)))
           < (length (fst (reported r ! j)), last (fst (reported r ! j))) \<longleftrightarrow> i < j"
proof -
  let ?key = "\<lambda>p::pyproof. (length (fst p), last (fst p))"
  let ?ks = "map ?key (reported r)"
  have s: "sorted ?ks" by (rule reported_basic(3) [OF run])
  have d: "distinct (map (\<lambda>p. last (fst p)) (reported r))" by (rule reported_basic(4) [OF run])
  have mono: "?key (reported r ! a) \<le> ?key (reported r ! b)"
    if "a \<le> b" "b < length (reported r)" for a b
  proof -
    from that have "?ks ! a \<le> ?ks ! b"
      using s by (simp add: sorted_iff_nth_mono del: map_map)
    then show ?thesis using that by simp
  qed
  have ne: "?key (reported r ! a) \<noteq> ?key (reported r ! b)"
    if "a \<noteq> b" "a < length (reported r)" "b < length (reported r)" for a b
  proof -
    have "map (\<lambda>p. last (fst p)) (reported r) ! a \<noteq> map (\<lambda>p. last (fst p)) (reported r) ! b"
      using d that by (simp add: nth_eq_iff_index_eq del: nth_map)
    then show ?thesis using that by simp
  qed
  show ?thesis
  proof
    assume less: "?key (reported r ! i) < ?key (reported r ! j)"
    show "i < j"
    proof (rule ccontr)
      assume "\<not> i < j"
      then have "j \<le> i" by simp
      from mono [OF this i] have "\<not> ?key (reported r ! i) < ?key (reported r ! j)"
        by (rule leD)
      then show False using less by blast
    qed
  next
    assume "i < j"
    then have "i \<le> j" "i \<noteq> j" by simp_all
    from mono [OF this(1) j] ne [OF this(2) i j] show "?key (reported r ! i) < ?key (reported r ! j)"
      by (rule le_neq_trans)
  qed
qed

lemma reported_written:
  assumes run: "find_all_proofs cfg = Some r"
  shows "\<exists>texts. map (\<lambda>p. print_proof (fst p) (snd p)) (reported r) = map Some texts \<and>
        filter (\<lambda>l. \<exists>t. l = PrintedProof t) (written r) = map PrintedProof texts"
proof -
  have "\<forall>p\<in>set (reported r). fst p \<noteq> []"
  proof
    fix p assume "p \<in> set (reported r)"
    from reported_nonempty [OF run this] show "fst p \<noteq> []" by auto
  qed
  from print_all_texts [OF this] obtain texts where
    t: "map (\<lambda>p. print_proof (fst p) (snd p)) (reported r) = map Some texts"
       "print_all (reported r) = map PrintedProof texts" by blast
  from run_written [OF run] obtain ls where
    W: "written r =
       [GeneratingAxioms, UsingBasis (length (wff_basis cfg)) (wff_basis cfg),
        FoundLength1 (length (proofs_at_len r 1)), SearchingUpTo (max_length cfg)]
       @ ls
       @ [SearchComplete, FoundTotal (total_proof_count r), FoundWithMP (length (proofs_with_mp r))]
       @ (if proofs_with_mp r = [] then [NoProofsWithMP]
          else FilteringDown (length (best_proofs r)) # print_all (reported r))"
    and ls: "list_all loop_line ls" by blast
  have empty: "reported r = []" if "proofs_with_mp r = []"
    unfolding run_collect(4) [OF run] run_collect(3) [OF run] that
    by (simp add: final_proofs_def best_proofs_for_theorem_def)
  have "filter (\<lambda>l. \<exists>t. l = PrintedProof t) (written r) = print_all (reported r)"
  proof (cases "proofs_with_mp r = []")
    case True
    then show ?thesis
      unfolding W using filter_loop_lines [OF ls] empty [OF True] by (simp add: print_all_def)
  next
    case False
    then show ?thesis
      unfolding W using filter_loop_lines [OF ls] filter_printed [of texts] by (simp add: t(2))
  qed
  with t show ?thesis by auto
qed

lemma two_A1_aa:
  "axiom_instance (str ''A1'') A1_template [str ''A'', str ''B''] [str ''a'', str ''a'']
     = Some ([str ''(a '' @ [ARROW] @ str '' (a '' @ [ARROW] @ str '' a))''],
         [str ''A1 [A=a, B=a]''])"
  by (simp add: axiom_instance_def axiom_just_def A1_template_def substitute_evals string_evals)

lemma two_A1_ab:
  "axiom_instance (str ''A1'') A1_template [str ''A'', str ''B''] [str ''a'', str ''b'']
     = Some ([str ''(a '' @ [ARROW] @ str '' (b '' @ [ARROW] @ str '' a))''],
         [str ''A1 [A=a, B=b]''])"
  by (simp add: axiom_instance_def axiom_just_def A1_template_def substitute_evals string_evals)

lemma two_A1_ba:
  "axiom_instance (str ''A1'') A1_template [str ''A'', str ''B''] [str ''b'', str ''a'']
     = Some ([str ''(b '' @ [ARROW] @ str '' (a '' @ [ARROW] @ str '' b))''],
         [str ''A1 [A=b, B=a]''])"
  by (simp add: axiom_instance_def axiom_just_def A1_template_def substitute_evals string_evals)

lemma two_A1_bb:
  "axiom_instance (str ''A1'') A1_template [str ''A'', str ''B''] [str ''b'', str ''b'']
     = Some ([str ''(b '' @ [ARROW] @ str '' (b '' @ [ARROW] @ str '' b))''],
         [str ''A1 [A=b, B=b]''])"
  by (simp add: axiom_instance_def axiom_just_def A1_template_def substitute_evals string_evals)

lemma two_A2_aaa:
  "axiom_instance (str ''A2'') A2_template [str ''A'', str ''B'', str ''C''] [str ''a'', str ''a'', str ''a'']
     = Some ([str ''((a '' @ [ARROW] @ str '' (a '' @ [ARROW] @ str '' a)) '' @ [ARROW] @ str '' ((a '' @ [ARROW] @ str '' a) '' @ [ARROW] @ str '' (a '' @ [ARROW] @ str '' a)))''],
         [str ''A2 [A=a, B=a, C=a]''])"
  by (simp add: axiom_instance_def axiom_just_def A2_template_def substitute_evals string_evals)

lemma two_A2_aab:
  "axiom_instance (str ''A2'') A2_template [str ''A'', str ''B'', str ''C''] [str ''a'', str ''a'', str ''b'']
     = Some ([str ''((a '' @ [ARROW] @ str '' (a '' @ [ARROW] @ str '' b)) '' @ [ARROW] @ str '' ((a '' @ [ARROW] @ str '' a) '' @ [ARROW] @ str '' (a '' @ [ARROW] @ str '' b)))''],
         [str ''A2 [A=a, B=a, C=b]''])"
  by (simp add: axiom_instance_def axiom_just_def A2_template_def substitute_evals string_evals)

lemma two_A2_aba:
  "axiom_instance (str ''A2'') A2_template [str ''A'', str ''B'', str ''C''] [str ''a'', str ''b'', str ''a'']
     = Some ([str ''((a '' @ [ARROW] @ str '' (b '' @ [ARROW] @ str '' a)) '' @ [ARROW] @ str '' ((a '' @ [ARROW] @ str '' b) '' @ [ARROW] @ str '' (a '' @ [ARROW] @ str '' a)))''],
         [str ''A2 [A=a, B=b, C=a]''])"
  by (simp add: axiom_instance_def axiom_just_def A2_template_def substitute_evals string_evals)

lemma two_A2_abb:
  "axiom_instance (str ''A2'') A2_template [str ''A'', str ''B'', str ''C''] [str ''a'', str ''b'', str ''b'']
     = Some ([str ''((a '' @ [ARROW] @ str '' (b '' @ [ARROW] @ str '' b)) '' @ [ARROW] @ str '' ((a '' @ [ARROW] @ str '' b) '' @ [ARROW] @ str '' (a '' @ [ARROW] @ str '' b)))''],
         [str ''A2 [A=a, B=b, C=b]''])"
  by (simp add: axiom_instance_def axiom_just_def A2_template_def substitute_evals string_evals)

lemma two_A2_baa:
  "axiom_instance (str ''A2'') A2_template [str ''A'', str ''B'', str ''C''] [str ''b'', str ''a'', str ''a'']
     = Some ([str ''((b '' @ [ARROW] @ str '' (a '' @ [ARROW] @ str '' a)) '' @ [ARROW] @ str '' ((b '' @ [ARROW] @ str '' a) '' @ [ARROW] @ str '' (b '' @ [ARROW] @ str '' a)))''],
         [str ''A2 [A=b, B=a, C=a]''])"
  by (simp add: axiom_instance_def axiom_just_def A2_template_def substitute_evals string_evals)

lemma two_A2_bab:
  "axiom_instance (str ''A2'') A2_template [str ''A'', str ''B'', str ''C''] [str ''b'', str ''a'', str ''b'']
     = Some ([str ''((b '' @ [ARROW] @ str '' (a '' @ [ARROW] @ str '' b)) '' @ [ARROW] @ str '' ((b '' @ [ARROW] @ str '' a) '' @ [ARROW] @ str '' (b '' @ [ARROW] @ str '' b)))''],
         [str ''A2 [A=b, B=a, C=b]''])"
  by (simp add: axiom_instance_def axiom_just_def A2_template_def substitute_evals string_evals)

lemma two_A2_bba:
  "axiom_instance (str ''A2'') A2_template [str ''A'', str ''B'', str ''C''] [str ''b'', str ''b'', str ''a'']
     = Some ([str ''((b '' @ [ARROW] @ str '' (b '' @ [ARROW] @ str '' a)) '' @ [ARROW] @ str '' ((b '' @ [ARROW] @ str '' b) '' @ [ARROW] @ str '' (b '' @ [ARROW] @ str '' a)))''],
         [str ''A2 [A=b, B=b, C=a]''])"
  by (simp add: axiom_instance_def axiom_just_def A2_template_def substitute_evals string_evals)

lemma two_A2_bbb:
  "axiom_instance (str ''A2'') A2_template [str ''A'', str ''B'', str ''C''] [str ''b'', str ''b'', str ''b'']
     = Some ([str ''((b '' @ [ARROW] @ str '' (b '' @ [ARROW] @ str '' b)) '' @ [ARROW] @ str '' ((b '' @ [ARROW] @ str '' b) '' @ [ARROW] @ str '' (b '' @ [ARROW] @ str '' b)))''],
         [str ''A2 [A=b, B=b, C=b]''])"
  by (simp add: axiom_instance_def axiom_just_def A2_template_def substitute_evals string_evals)

lemma two_A3_aa:
  "axiom_instance (str ''A3'') A3_template [str ''A'', str ''B''] [str ''a'', str ''a'']
     = Some ([str ''(('' @ [NEG] @ str ''a '' @ [ARROW] @ str '' '' @ [NEG] @ str ''a) '' @ [ARROW] @ str '' (a '' @ [ARROW] @ str '' a))''],
         [str ''A3 [A=a, B=a]''])"
  by (simp add: axiom_instance_def axiom_just_def A3_template_def substitute_evals string_evals)

lemma two_A3_ab:
  "axiom_instance (str ''A3'') A3_template [str ''A'', str ''B''] [str ''a'', str ''b'']
     = Some ([str ''(('' @ [NEG] @ str ''b '' @ [ARROW] @ str '' '' @ [NEG] @ str ''a) '' @ [ARROW] @ str '' (a '' @ [ARROW] @ str '' b))''],
         [str ''A3 [A=a, B=b]''])"
  by (simp add: axiom_instance_def axiom_just_def A3_template_def substitute_evals string_evals)

lemma two_A3_ba:
  "axiom_instance (str ''A3'') A3_template [str ''A'', str ''B''] [str ''b'', str ''a'']
     = Some ([str ''(('' @ [NEG] @ str ''a '' @ [ARROW] @ str '' '' @ [NEG] @ str ''b) '' @ [ARROW] @ str '' (b '' @ [ARROW] @ str '' a))''],
         [str ''A3 [A=b, B=a]''])"
  by (simp add: axiom_instance_def axiom_just_def A3_template_def substitute_evals string_evals)

lemma two_A3_bb:
  "axiom_instance (str ''A3'') A3_template [str ''A'', str ''B''] [str ''b'', str ''b'']
     = Some ([str ''(('' @ [NEG] @ str ''b '' @ [ARROW] @ str '' '' @ [NEG] @ str ''b) '' @ [ARROW] @ str '' (b '' @ [ARROW] @ str '' b))''],
         [str ''A3 [A=b, B=b]''])"
  by (simp add: axiom_instance_def axiom_just_def A3_template_def substitute_evals string_evals)

lemma two_instances: "axiom_instances two_config = Some two_axioms"
  by (simp add: axiom_instances_def two_config_def AXIOM_TEMPLATES_def two_axioms_def
      numeral_2_eq_2 numeral_3_eq_3
      two_A1_aa two_A1_ab two_A1_ba two_A1_bb two_A2_aaa two_A2_aab two_A2_aba two_A2_abb two_A2_baa two_A2_bab two_A2_bba two_A2_bbb two_A3_aa two_A3_ab two_A3_ba two_A3_bb)


lemma two_run: "find_all_proofs two_config = Some two_result"
  using find_all_proofs_returns [OF two_instances] by (auto simp: two_result_def)

lemma two_layer1: "proofs_at_len two_result 1 = two_axioms"
proof -
  from run_done(2) [OF two_run] have "proofs_at_len two_result 1 = add_new {} two_axioms"
    by (simp add: two_instances)
  then show ?thesis by (simp add: two_axioms_def string_evals)
qed

lemma two_layer2_aa:
  "(fst A1_aa @ fst A2_aaa, snd A1_aa @ snd A2_aaa) \<in> set (proofs_at_len two_result 2)"
proof -
  have k: "(2::nat) \<le> 2" "2 \<le> max_length two_config" by (simp_all add: two_config_def)
  have "A1_aa \<in> set (proofs_at_len two_result 1)"
    unfolding two_layer1 by (simp add: two_axioms_def A1_aa_def)
  then have P: "A1_aa \<in> set (proofs_at_len two_result (2 - 1))" by simp
  have A: "A2_aaa \<in> set (proofs_at_len two_result 1)"
    unfolding two_layer1 by (simp add: two_axioms_def A2_aaa_def)
  from option_a_accepted [OF two_run k P A] show ?thesis by (simp add: A2_aaa_def)
qed

lemma two_layer2_ab:
  "(fst A1_ab @ fst A2_aba, snd A1_ab @ snd A2_aba) \<in> set (proofs_at_len two_result 2)"
proof -
  have k: "(2::nat) \<le> 2" "2 \<le> max_length two_config" by (simp_all add: two_config_def)
  have "A1_ab \<in> set (proofs_at_len two_result 1)"
    unfolding two_layer1 by (simp add: two_axioms_def A1_ab_def)
  then have P: "A1_ab \<in> set (proofs_at_len two_result (2 - 1))" by simp
  have A: "A2_aba \<in> set (proofs_at_len two_result 1)"
    unfolding two_layer1 by (simp add: two_axioms_def A2_aba_def)
  from option_a_accepted [OF two_run k P A] show ?thesis by (simp add: A2_aba_def)
qed

lemma two_apply_mp_ab:
  "apply_mp ((fst A1_ab @ fst A2_aba) ! 0) ((fst A1_ab @ fst A2_aba) ! 1) = Some mp_consequent_ab"
  by (simp add: apply_mp_Some expected_form_def A1_ab_def A2_aba_def mp_consequent_ab_def string_evals)

lemma two_layer3_mp:
  assumes P: "prev \<in> set (proofs_at_len two_result 2)"
    and mp: "apply_mp (fst prev ! 0) (fst prev ! 1) = Some q"
    and q: "q \<noteq> []"
    and noax: "\<forall>a\<in>set two_axioms. hd (fst a) \<noteq> q"
  shows "(fst prev @ [q], snd prev @ [str ''MP (1,2)'']) \<in> set (proofs_at_len two_result 3)"
proof -
  have k: "(2::nat) \<le> 3" "3 \<le> max_length two_config" by (simp_all add: two_config_def)
  have P': "prev \<in> set (proofs_at_len two_result (3 - 1))" using P by simp
  have ij: "(0::nat) < 3 - 1" "(1::nat) < 3 - 1" "(0::nat) \<noteq> 1" by simp_all
  have "(fst prev @ [q], snd prev @ [mp_just 0 1]) \<in> set (proofs_at_len two_result 3)"
  proof (rule mp_accepted [OF two_run k P' ij mp q])
    show "hd (fst a) \<noteq> q" if "a \<in> set (proofs_at_len two_result 1)" for a
      using that noax unfolding two_layer1 by blast
    show "apply_mp (fst prev ! i') (fst prev ! j') \<noteq> Some q"
      if "i' < 3 - 1" "j' < 3 - 1" "i' \<noteq> j'" "i' < 0 \<or> (i' = 0 \<and> j' < 1)" for i' j'
      using that by simp
  qed
  then show ?thesis unfolding small_mp_just .
qed

lemma two_layer3_aa:
  "((fst A1_aa @ fst A2_aaa) @ [mp_consequent], (snd A1_aa @ snd A2_aaa) @ [str ''MP (1,2)''])
     \<in> set (proofs_at_len two_result 3)"
proof -
  have q: "mp_consequent \<noteq> []" by (simp add: mp_consequent_def string_evals)
  have noax: "\<forall>a\<in>set two_axioms. hd (fst a) \<noteq> mp_consequent"
    by (simp add: two_axioms_def mp_consequent_def string_evals)
  have mp: "apply_mp (fst (fst A1_aa @ fst A2_aaa, snd A1_aa @ snd A2_aaa) ! 0)
      (fst (fst A1_aa @ fst A2_aaa, snd A1_aa @ snd A2_aaa) ! 1) = Some mp_consequent"
    using small_apply_mp by simp
  from two_layer3_mp [OF two_layer2_aa mp q noax] show ?thesis by simp
qed

lemma two_layer3_ab:
  "((fst A1_ab @ fst A2_aba) @ [mp_consequent_ab], (snd A1_ab @ snd A2_aba) @ [str ''MP (1,2)''])
     \<in> set (proofs_at_len two_result 3)"
proof -
  have q: "mp_consequent_ab \<noteq> []" by (simp add: mp_consequent_ab_def string_evals)
  have noax: "\<forall>a\<in>set two_axioms. hd (fst a) \<noteq> mp_consequent_ab"
    by (simp add: two_axioms_def mp_consequent_ab_def string_evals)
  have mp: "apply_mp (fst (fst A1_ab @ fst A2_aba, snd A1_ab @ snd A2_aba) ! 0)
      (fst (fst A1_ab @ fst A2_aba, snd A1_ab @ snd A2_aba) ! 1) = Some mp_consequent_ab"
    using two_apply_mp_ab by simp
  from two_layer3_mp [OF two_layer2_ab mp q noax] show ?thesis by simp
qed

lemma candidate_reported:
  assumes run: "find_all_proofs cfg = Some r"
    and k: "3 \<le> k" "k \<le> max_length cfg"
    and c: "c \<in> set (proofs_at_len r k)"
    and mp: "\<exists>just\<in>set (snd c). take 2 just = str ''MP''"
  shows "\<exists>i<length (reported r). last (fst (reported r ! i)) = last (fst c) \<and>
     (\<exists>k'. 3 \<le> k' \<and> k' \<le> max_length cfg \<and> length (fst (reported r ! i)) = k')"
proof -
  have inv: "best_inv (proofs_with_mp r) (best_proofs r)"
    unfolding run_collect(3) [OF run] by (rule best_inv_result)
  have "c \<in> set (proofs_with_mp r)" unfolding candidate_iff [OF run] using k c mp by blast
  moreover from inv have "\<forall>c\<in>set (proofs_with_mp r).
      \<exists>b. map_of (best_proofs r) (last (fst c)) = Some b \<and> simpler_eq b c"
    unfolding best_inv_def by blast
  ultimately obtain b where b: "map_of (best_proofs r) (last (fst c)) = Some b" by blast
  then have mem: "(last (fst c), b) \<in> set (best_proofs r)" by (rule map_of_SomeD)
  then have "snd (last (fst c), b) \<in> snd ` set (best_proofs r)" by (rule imageI)
  then have "b \<in> set (reported r)" unfolding reported_basic(1) [OF run] by simp
  then obtain i where i: "i < length (reported r)" "reported r ! i = b"
    unfolding in_set_conv_nth by blast
  from reported_nonempty [OF run \<open>b \<in> set (reported r)\<close>] obtain k' where
    "3 \<le> k'" "k' \<le> max_length cfg" "length (fst b) = k'" by blast
  moreover have "last (fst b) = last (fst c)" by (rule best_entry_candidate(2) [OF run mem])
  ultimately show ?thesis using i by blast
qed

text \<open>
  C6. The final report. The reported proofs are the retained proofs of the mapping
  \<open>best_proofs\<close>, each once. For any two of them, the one with fewer steps comes first,
  and of two with the same number of steps the one whose theorem, the last step, is the
  smaller text in the lexicographic order of the code points comes first; no two have
  the same theorem, so the position is decided by this. The proofs printed to the file
  are the texts of the reported proofs, in this order.
\<close>

theorem report_sorted:
  assumes run: "find_all_proofs cfg = Some r"
  shows "set (reported r) = snd ` set (best_proofs r) \<and>
     length (reported r) = length (best_proofs r) \<and>
     (\<forall>i j. i < length (reported r) \<and> j < length (reported r) \<longrightarrow>
        ((length (fst (reported r ! i)) < length (fst (reported r ! j)) \<or>
          (length (fst (reported r ! i)) = length (fst (reported r ! j)) \<and>
           (last (fst (reported r ! i)), last (fst (reported r ! j))) \<in> lexord {(a, b). a < b}))
         \<longleftrightarrow> i < j)) \<and>
     (\<exists>texts. map (\<lambda>p. print_proof (fst p) (snd p)) (reported r) = map Some texts \<and>
        filter (\<lambda>l. \<exists>t. l = PrintedProof t) (written r) = map PrintedProof texts)"
proof -
  have ord: "\<forall>i j. i < length (reported r) \<and> j < length (reported r) \<longrightarrow>
        ((length (fst (reported r ! i)) < length (fst (reported r ! j)) \<or>
          (length (fst (reported r ! i)) = length (fst (reported r ! j)) \<and>
           (last (fst (reported r ! i)), last (fst (reported r ! j))) \<in> lexord {(a, b). a < b}))
         \<longleftrightarrow> i < j)"
  proof (intro allI impI)
    fix i j
    assume "i < length (reported r) \<and> j < length (reported r)"
    then have i: "i < length (reported r)" and j: "j < length (reported r)" by simp_all
    from reported_order [OF run i j]
    show "(length (fst (reported r ! i)) < length (fst (reported r ! j)) \<or>
          (length (fst (reported r ! i)) = length (fst (reported r ! j)) \<and>
           (last (fst (reported r ! i)), last (fst (reported r ! j))) \<in> lexord {(a, b). a < b}))
         \<longleftrightarrow> i < j"
      unfolding key_less_iff .
  qed
  from reported_basic(1,2) [OF run] ord reported_written [OF run] show ?thesis by (intro conjI)
qed

theorem report_sorted_witness:
  "find_all_proofs two_config = Some two_result \<and>
   (mp_consequent, mp_consequent_ab) \<in> lexord {(a, b). a < b} \<and>
   (\<exists>i j. i < length (reported two_result) \<and> j < length (reported two_result) \<and>
      length (fst (reported two_result ! i)) = 3 \<and>
      length (fst (reported two_result ! j)) = 3 \<and>
      last (fst (reported two_result ! i)) = mp_consequent \<and>
      last (fst (reported two_result ! j)) = mp_consequent_ab \<and>
      i < j)"
proof -
  have k: "(3::nat) \<le> 3" "3 \<le> max_length two_config" by (simp_all add: two_config_def)
  have lex: "(mp_consequent, mp_consequent_ab) \<in> lexord {(a, b). a < b}"
    by (simp add: mp_consequent_def mp_consequent_ab_def string_evals)
  have mp: "\<exists>just\<in>set (snd (steps, justs @ [str ''MP (1,2)''])). take 2 just = str ''MP''"
    for steps :: "pystr list" and justs
    by (simp add: str_def)
  from candidate_reported [OF two_run k two_layer3_aa mp]
  obtain i where i: "i < length (reported two_result)"
    "last (fst (reported two_result ! i)) = mp_consequent"
    "length (fst (reported two_result ! i)) = 3"
    by (auto simp: two_config_def)
  from candidate_reported [OF two_run k two_layer3_ab mp]
  obtain j where j: "j < length (reported two_result)"
    "last (fst (reported two_result ! j)) = mp_consequent_ab"
    "length (fst (reported two_result ! j)) = 3"
    by (auto simp: two_config_def)
  note t = report_sorted [OF two_run]
  from t i(1) j(1) have "(length (fst (reported two_result ! i)) < length (fst (reported two_result ! j)) \<or>
          (length (fst (reported two_result ! i)) = length (fst (reported two_result ! j)) \<and>
           (last (fst (reported two_result ! i)), last (fst (reported two_result ! j)))
             \<in> lexord {(a, b). a < b}))
         \<longleftrightarrow> i < j" by blast
  then have "i < j" unfolding i(2,3) j(2,3) using lex by simp
  with i j have "\<exists>i j. i < length (reported two_result) \<and> j < length (reported two_result) \<and>
      length (fst (reported two_result ! i)) = 3 \<and>
      length (fst (reported two_result ! j)) = 3 \<and>
      last (fst (reported two_result ! i)) = mp_consequent \<and>
      last (fst (reported two_result ! j)) = mp_consequent_ab \<and>
      i < j" by blast
  with two_run lex show ?thesis by blast
qed

section \<open>Substitution replaces tokens\<close>

lemma concat_tokens: "concat (tokens s) = s"
  by (induction s rule: tokens.induct) simp_all

lemma tokens_nonword: "\<not> is_word_char c \<Longrightarrow> tokens (c # cs) = [c] # tokens cs"
  by simp

lemma tokens_append_nonword:
  "\<not> is_word_char c \<Longrightarrow> tokens (x @ c # y) = tokens x @ [c] # tokens y"
proof (induction x rule: tokens.induct)
  case 1
  then show ?case by simp
next
  case (2 d ds)
  show ?case
  proof (cases "is_word_char d")
    case False
    then show ?thesis using 2 by simp
  next
    case True
    have t: "takeWhile is_word_char (ds @ c # y) = takeWhile is_word_char ds"
      using 2(3) by (induction ds) simp_all
    have d: "dropWhile is_word_char (ds @ c # y) = dropWhile is_word_char ds @ c # y"
      using 2(3) by (induction ds) simp_all
    show ?thesis using True 2(1) [OF True 2(3)] by (simp add: t d)
  qed
qed

lemma replace_tokens_Nil: "replace_tokens var repl [] = []"
  by (simp add: replace_tokens_def)

lemma replace_tokens_nonword:
  assumes "\<not> is_word_char c" "list_all is_word_char var" "var \<noteq> []"
  shows "replace_tokens var repl (c # cs) = c # replace_tokens var repl cs"
proof -
  have "[c] \<noteq> var" using assms by (cases var) auto
  then show ?thesis using assms(1) by (simp add: replace_tokens_def)
qed

lemma replace_tokens_word:
  assumes "is_word_char c"
  shows "replace_tokens var repl (c # cs) =
     (if c # takeWhile is_word_char cs = var then repl else c # takeWhile is_word_char cs)
     @ replace_tokens var repl (dropWhile is_word_char cs)"
  using assms by (simp add: replace_tokens_def)

lemma replace_tokens_absent:
  "\<not> has_token var s \<Longrightarrow> replace_tokens var repl s = s"
proof -
  assume "\<not> has_token var s"
  then have "\<And>t. t \<in> set (tokens s) \<Longrightarrow> (if t = var then repl else t) = t"
    by (auto simp: has_token_def)
  then have "map (\<lambda>t. if t = var then repl else t) (tokens s) = tokens s"
    by (rule map_idI)
  then show ?thesis by (simp add: replace_tokens_def concat_tokens)
qed

lemma match_here_token:
  assumes var: "var \<noteq> []" "list_all is_word_char var"
    and prev: "\<not> is_word_at prev"
    and c: "is_word_char c"
  shows "match_here var prev (c # cs) \<longleftrightarrow> c # takeWhile is_word_char cs = var"
proof
  assume m: "match_here var prev (c # cs)"
  then have sw: "take (length var) (c # cs) = var"
    and wb: "word_boundary (Some (last var)) (drop (length var) (c # cs))"
    using var(1) by (simp_all add: match_here_def startswith_def)
  have lw: "is_word_char (last var)" using var by (simp add: list_all_iff)
  from wb lw have nw: "\<not> is_word_at (first_char (drop (length var) (c # cs)))"
    by (simp add: word_boundary_def)
  have s: "c # cs = var @ drop (length var) (c # cs)"
    using sw append_take_drop_id [of "length var" "c # cs"] by simp
  have "takeWhile is_word_char (var @ drop (length var) (c # cs)) = var"
  proof (cases "drop (length var) (c # cs)")
    case Nil
    then show ?thesis using var(2) by (simp add: list_all_iff)
  next
    case (Cons e es)
    with nw have "\<not> is_word_char e" by simp
    then show ?thesis using var(2) Cons by (simp add: list_all_iff takeWhile_append2)
  qed
  then have "takeWhile is_word_char (c # cs) = var" using s by simp
  then show "c # takeWhile is_word_char cs = var" using c by simp
next
  assume t: "c # takeWhile is_word_char cs = var"
  then have tw: "takeWhile is_word_char (c # cs) = var" using c by simp
  have s: "c # cs = var @ dropWhile is_word_char (c # cs)"
    using takeWhile_dropWhile_id [of is_word_char "c # cs"] unfolding tw by simp
  then have sw: "take (length var) (c # cs) = var"
    by (metis append_eq_conv_conj)
  from s have dr: "drop (length var) (c # cs) = dropWhile is_word_char (c # cs)"
    by (metis append_eq_conv_conj)
  have nw: "\<not> is_word_at (first_char (dropWhile is_word_char (c # cs)))"
  proof (cases "dropWhile is_word_char (c # cs)")
    case Nil
    then show ?thesis by simp
  next
    case (Cons e es)
    then have "\<not> is_word_char e" using hd_dropWhile [of is_word_char "c # cs"] by auto
    then show ?thesis using Cons by simp
  qed
  have lw: "is_word_char (last var)" using var by (simp add: list_all_iff)
  show "match_here var prev (c # cs)"
    unfolding match_here_def startswith_def dr
    using sw nw lw prev c var(1) by (simp add: word_boundary_def)
qed


lemma re_sub_from_tokens:
  "var \<noteq> [] \<Longrightarrow> list_all is_word_char var \<Longrightarrow>
   re_sub_from var repl prev s =
     (if is_word_at prev
      then takeWhile is_word_char s @ replace_tokens var repl (dropWhile is_word_char s)
      else replace_tokens var repl s)"
proof (induction var repl prev s rule: re_sub_from.induct)
  case (1 var repl prev)
  have "\<not> match_here var prev []"
    using 1(1) by (simp add: match_here_def startswith_def)
  then show ?case by (simp add: replace_tokens_Nil)
next
  case (2 var repl prev c cs)
  note var = 2(4,5)
  have hdw: "is_word_char (hd var)" using var by (cases var) simp_all
  show ?case
  proof (cases "is_word_char c")
    case False
    have "\<not> startswith (c # cs) var"
    proof
      assume "startswith (c # cs) var"
      then have "take (length var) (c # cs) = var" by (simp add: startswith_def)
      then have "hd var = c" using var(1) by (cases var) auto
      with hdw False show False by simp
    qed
    then have nm: "\<not> match_here var prev (c # cs)" by (simp add: match_here_def)
    have "re_sub_from var repl prev (c # cs) = c # re_sub_from var repl (Some c) cs"
      using nm by simp
    also have "re_sub_from var repl (Some c) cs = replace_tokens var repl cs"
      using 2(3) [OF nm var] False by simp
    finally show ?thesis
      using False replace_tokens_nonword [OF False var(2,1), of repl cs] by simp
  next
    case True
    show ?thesis
    proof (cases "is_word_at prev")
      case prevw: True
      have nm: "\<not> match_here var prev (c # cs)"
        using prevw True by (simp add: match_here_def word_boundary_def)
      have "re_sub_from var repl prev (c # cs) = c # re_sub_from var repl (Some c) cs"
        using nm by simp
      also have "re_sub_from var repl (Some c) cs =
          takeWhile is_word_char cs @ replace_tokens var repl (dropWhile is_word_char cs)"
        using 2(3) [OF nm var] True by simp
      finally show ?thesis using prevw True by simp
    next
      case prevn: False
      note mt = match_here_token [OF var prevn True, of cs]
      show ?thesis
      proof (cases "match_here var prev (c # cs)")
        case m: True
        then have tv: "c # takeWhile is_word_char cs = var" using mt by simp
        then have tw: "takeWhile is_word_char (c # cs) = var" using True by simp
        have s: "c # cs = var @ dropWhile is_word_char (c # cs)"
          using takeWhile_dropWhile_id [of is_word_char "c # cs"] unfolding tw by simp
        then have dr: "drop (length var) (c # cs) = dropWhile is_word_char cs"
          using True by (metis append_eq_conv_conj dropWhile.simps(2))
        have lw: "is_word_at (Some (last var))" using var by (simp add: list_all_iff)
        have dd: "dropWhile is_word_char (dropWhile is_word_char cs) = dropWhile is_word_char cs"
          "takeWhile is_word_char (dropWhile is_word_char cs) = []"
        proof -
          show "dropWhile is_word_char (dropWhile is_word_char cs) = dropWhile is_word_char cs"
            by (rule dropWhile_idem)
          show "takeWhile is_word_char (dropWhile is_word_char cs) = []"
          proof (cases "dropWhile is_word_char cs")
            case Nil
            show ?thesis unfolding Nil by simp
          next
            case (Cons e es)
            then have "\<not> is_word_char e" using hd_dropWhile [of is_word_char cs] by auto
            then show ?thesis unfolding Cons by simp
          qed
        qed
        have "re_sub_from var repl prev (c # cs)
            = repl @ re_sub_from var repl (Some (last var)) (drop (length var) (c # cs))"
          using m var(1) by simp
        also have "re_sub_from var repl (Some (last var)) (drop (length var) (c # cs))
            = replace_tokens var repl (dropWhile is_word_char cs)"
          using 2(2) [OF m var(1) var] lw unfolding dr by (simp add: dd)
        finally show ?thesis
          using prevn tv replace_tokens_word [OF True, of var repl cs] by simp
      next
        case nm: False
        then have tv: "c # takeWhile is_word_char cs \<noteq> var" using mt by simp
        have "re_sub_from var repl prev (c # cs) = c # re_sub_from var repl (Some c) cs"
          using nm by simp
        also have "re_sub_from var repl (Some c) cs =
            takeWhile is_word_char cs @ replace_tokens var repl (dropWhile is_word_char cs)"
          using 2(3) [OF nm var] True by simp
        finally show ?thesis
          using prevn tv replace_tokens_word [OF True, of var repl cs] by simp
      qed
    qed
  qed
qed

lemma re_sub_word_tokens:
  assumes "var \<noteq> []" "list_all is_word_char var"
    and "modelled_text var" "modelled_text repl" "modelled_text s" "BACKSLASH \<notin> set repl"
  shows "re_sub_word var repl s = Some (replace_tokens var repl s)"
  using assms re_sub_from_tokens [OF assms(1,2), of repl None s] by (simp add: re_sub_word_def)


lemma replace_tokens_append_nonword:
  "\<not> is_word_char c \<Longrightarrow>
   replace_tokens var repl (x @ c # y) = replace_tokens var repl x @ replace_tokens var repl (c # y)"
  by (simp add: replace_tokens_def tokens_append_nonword)

lemma has_token_nonword:
  assumes "\<not> is_word_char c" "list_all is_word_char var" "var \<noteq> []"
  shows "has_token var (c # cs) = has_token var cs"
proof -
  have "var \<noteq> [c]" using assms by (cases var) auto
  then show ?thesis using assms(1) by (simp add: has_token_def)
qed

lemma has_token_append_nonword:
  assumes "\<not> is_word_char c"
  shows "has_token var (x @ c # y) = (has_token var x \<or> has_token var (c # y))"
  using assms by (auto simp add: has_token_def tokens_append_nonword)

lemma has_token_Nil: "\<not> has_token var []"
  by (simp add: has_token_def)

lemma ground_modelled:
  assumes "ground w"
  shows "modelled_text w" "BACKSLASH \<notin> set w"
    "\<not> has_token (str ''A'') w" "\<not> has_token (str ''B'') w" "\<not> has_token (str ''C'') w"
proof -
  from assms have l: "list_all (\<lambda>c. (c < 128 \<and> c \<noteq> 92) \<or> c = 172 \<or> c = 8594) w"
    by (simp add: ground_def)
  show "modelled_text w"
    using l unfolding modelled_text_def list_all_iff NEG_def ARROW_def by blast
  show "BACKSLASH \<notin> set w"
    using l unfolding list_all_iff BACKSLASH_def by auto
  show "\<not> has_token (str ''A'') w" "\<not> has_token (str ''B'') w" "\<not> has_token (str ''C'') w"
    using assms by (simp_all add: ground_def)
qed

lemma var_words:
  "str ''A'' \<noteq> []" "list_all is_word_char (str ''A'')" "modelled_text (str ''A'')"
  "str ''B'' \<noteq> []" "list_all is_word_char (str ''B'')" "modelled_text (str ''B'')"
  "str ''C'' \<noteq> []" "list_all is_word_char (str ''C'')" "modelled_text (str ''C'')"
  by (simp_all add: str_def is_word_char_def modelled_text_def)

lemma sorted_keys_two:
  "length a = length b \<Longrightarrow> sorted_keys [(a, x), (b, y)] = [(a, x), (b, y)]"
  by (simp add: sorted_keys_def)

lemma sorted_keys_three:
  "length a = length b \<Longrightarrow> length b = length c \<Longrightarrow>
   sorted_keys [(a, x), (b, y), (c, z)] = [(a, x), (b, y), (c, z)]"
  by (simp add: sorted_keys_def)

lemma dict_zip_two: "a \<noteq> b \<Longrightarrow> dict_zip [a, b] [x, y] = [(a, x), (b, y)]"
  by (simp add: dict_zip_def)

lemma dict_zip_three:
  "a \<noteq> b \<Longrightarrow> a \<noteq> c \<Longrightarrow> b \<noteq> c \<Longrightarrow> dict_zip [a, b, c] [x, y, z] = [(a, x), (b, y), (c, z)]"
  by (simp add: dict_zip_def)

lemma substitute_two:
  assumes "modelled_text wa" "BACKSLASH \<notin> set wa" "modelled_text wb" "BACKSLASH \<notin> set wb"
    and "modelled_text template"
  shows "substitute template (dict_zip [str ''A'', str ''B''] [wa, wb])
     = Some (replace_tokens (str ''B'') wb (replace_tokens (str ''A'') wa template))"
proof -
  have d: "sorted_keys (dict_zip [str ''A'', str ''B''] [wa, wb]) = [(str ''A'', wa), (str ''B'', wb)]"
    by (simp add: dict_zip_two sorted_keys_two str_def)
  have 1: "re_sub_word (str ''A'') wa template = Some (replace_tokens (str ''A'') wa template)"
    by (rule re_sub_word_tokens [OF var_words(1,2,3) assms(1,5,2)])
  from re_sub_word_modelled [OF var_words(3) assms(1,2,5)] 1
  have m1: "modelled_text (replace_tokens (str ''A'') wa template)" by simp
  have 2: "re_sub_word (str ''B'') wb (replace_tokens (str ''A'') wa template)
      = Some (replace_tokens (str ''B'') wb (replace_tokens (str ''A'') wa template))"
    by (rule re_sub_word_tokens [OF var_words(4,5,6) assms(3) m1 assms(4)])
  show ?thesis unfolding substitute_def d by (simp add: 1 2)
qed

lemma substitute_three:
  assumes "modelled_text wa" "BACKSLASH \<notin> set wa" "modelled_text wb" "BACKSLASH \<notin> set wb"
    and "modelled_text wc" "BACKSLASH \<notin> set wc"
    and "modelled_text template"
  shows "substitute template (dict_zip [str ''A'', str ''B'', str ''C''] [wa, wb, wc])
     = Some (replace_tokens (str ''C'') wc
         (replace_tokens (str ''B'') wb (replace_tokens (str ''A'') wa template)))"
proof -
  have d: "sorted_keys (dict_zip [str ''A'', str ''B'', str ''C''] [wa, wb, wc])
      = [(str ''A'', wa), (str ''B'', wb), (str ''C'', wc)]"
    by (simp add: dict_zip_three sorted_keys_three str_def)
  have 1: "re_sub_word (str ''A'') wa template = Some (replace_tokens (str ''A'') wa template)"
    by (rule re_sub_word_tokens [OF var_words(1,2,3) assms(1,7,2)])
  from re_sub_word_modelled [OF var_words(3) assms(1,2,7)] 1
  have m1: "modelled_text (replace_tokens (str ''A'') wa template)" by simp
  have 2: "re_sub_word (str ''B'') wb (replace_tokens (str ''A'') wa template)
      = Some (replace_tokens (str ''B'') wb (replace_tokens (str ''A'') wa template))"
    by (rule re_sub_word_tokens [OF var_words(4,5,6) assms(3) m1 assms(4)])
  from re_sub_word_modelled [OF var_words(6) assms(3,4) m1] 2
  have m2: "modelled_text (replace_tokens (str ''B'') wb (replace_tokens (str ''A'') wa template))"
    by simp
  have 3: "re_sub_word (str ''C'') wc
        (replace_tokens (str ''B'') wb (replace_tokens (str ''A'') wa template))
      = Some (replace_tokens (str ''C'') wc
          (replace_tokens (str ''B'') wb (replace_tokens (str ''A'') wa template)))"
    by (rule re_sub_word_tokens [OF var_words(7,8,9) assms(5) m2 assms(6)])
  show ?thesis unfolding substitute_def d by (simp add: 1 2 3)
qed

lemmas token_evals = replace_tokens_nonword replace_tokens_word replace_tokens_append_nonword
  replace_tokens_absent replace_tokens_Nil has_token_nonword has_token_append_nonword has_token_Nil
  is_word_char_def

lemma A1_closed:
  assumes "ground wa" "ground wb"
  shows "substitute A1_template (dict_zip [str ''A'', str ''B''] [wa, wb])
     = Some (str ''('' @ wa @ str '' '' @ [ARROW] @ str '' ('' @ wb @ str '' '' @ [ARROW]
             @ str '' '' @ wa @ str ''))'')"
proof -
  note a = ground_modelled [OF assms(1)] and b = ground_modelled [OF assms(2)]
  have t: "modelled_text A1_template"
    by (simp add: A1_template_def modelled_text_def string_evals)
  show ?thesis
    unfolding substitute_two [OF a(1,2) b(1,2) t]
    using a(4) by (simp add: A1_template_def string_evals token_evals)
qed


lemma A2_closed:
  assumes "ground wa" "ground wb" "ground wc"
  shows "substitute A2_template (dict_zip [str ''A'', str ''B'', str ''C''] [wa, wb, wc])
     = Some (str ''(('' @ wa @ str '' '' @ [ARROW] @ str '' ('' @ wb @ str '' '' @ [ARROW]
             @ str '' '' @ wc @ str '')) '' @ [ARROW] @ str '' (('' @ wa @ str '' '' @ [ARROW]
             @ str '' '' @ wb @ str '') '' @ [ARROW] @ str '' ('' @ wa @ str '' '' @ [ARROW]
             @ str '' '' @ wc @ str '')))'')"
proof -
  note a = ground_modelled [OF assms(1)] and b = ground_modelled [OF assms(2)]
    and c = ground_modelled [OF assms(3)]
  have t: "modelled_text A2_template"
    by (simp add: A2_template_def modelled_text_def string_evals)
  show ?thesis
    unfolding substitute_three [OF a(1,2) b(1,2) c(1,2) t]
    using a(4,5) b(5) by (simp add: A2_template_def string_evals token_evals)
qed

lemma A3_closed:
  assumes "ground wa" "ground wb"
  shows "substitute A3_template (dict_zip [str ''A'', str ''B''] [wa, wb])
     = Some (str ''(('' @ [NEG] @ wb @ str '' '' @ [ARROW] @ str '' '' @ [NEG] @ wa @ str '') ''
             @ [ARROW] @ str '' ('' @ wa @ str '' '' @ [ARROW] @ str '' '' @ wb @ str ''))'')"
proof -
  note a = ground_modelled [OF assms(1)] and b = ground_modelled [OF assms(2)]
  have t: "modelled_text A3_template"
    by (simp add: A3_template_def modelled_text_def string_evals)
  show ?thesis
    unfolding substitute_two [OF a(1,2) b(1,2) t]
    using a(4) by (simp add: A3_template_def string_evals token_evals)
qed

lemma A1_no_tokens:
  assumes "ground wa" "ground wb"
  shows "\<not> has_token (str ''A'') (str ''('' @ wa @ str '' '' @ [ARROW] @ str '' ('' @ wb @ str '' '' @ [ARROW] @ str '' ''
          @ wa @ str ''))'')"
    "\<not> has_token (str ''B'') (str ''('' @ wa @ str '' '' @ [ARROW] @ str '' ('' @ wb @ str '' '' @ [ARROW] @ str '' ''
          @ wa @ str ''))'')"
    "\<not> has_token (str ''C'') (str ''('' @ wa @ str '' '' @ [ARROW] @ str '' ('' @ wb @ str '' '' @ [ARROW] @ str '' ''
          @ wa @ str ''))'')"
  using ground_modelled(3-5) [OF assms(1)] ground_modelled(3-5) [OF assms(2)]
  by (simp_all add: string_evals token_evals)

lemma A2_no_tokens:
  assumes "ground wa" "ground wb" "ground wc"
  shows "\<not> has_token (str ''A'') (str ''(('' @ wa @ str '' '' @ [ARROW] @ str '' ('' @ wb @ str '' '' @ [ARROW]
          @ str '' '' @ wc @ str '')) '' @ [ARROW] @ str '' (('' @ wa @ str '' '' @ [ARROW]
          @ str '' '' @ wb @ str '') '' @ [ARROW] @ str '' ('' @ wa @ str '' '' @ [ARROW]
          @ str '' '' @ wc @ str '')))'')"
    "\<not> has_token (str ''B'') (str ''(('' @ wa @ str '' '' @ [ARROW] @ str '' ('' @ wb @ str '' '' @ [ARROW]
          @ str '' '' @ wc @ str '')) '' @ [ARROW] @ str '' (('' @ wa @ str '' '' @ [ARROW]
          @ str '' '' @ wb @ str '') '' @ [ARROW] @ str '' ('' @ wa @ str '' '' @ [ARROW]
          @ str '' '' @ wc @ str '')))'')"
    "\<not> has_token (str ''C'') (str ''(('' @ wa @ str '' '' @ [ARROW] @ str '' ('' @ wb @ str '' '' @ [ARROW]
          @ str '' '' @ wc @ str '')) '' @ [ARROW] @ str '' (('' @ wa @ str '' '' @ [ARROW]
          @ str '' '' @ wb @ str '') '' @ [ARROW] @ str '' ('' @ wa @ str '' '' @ [ARROW]
          @ str '' '' @ wc @ str '')))'')"
  using ground_modelled(3-5) [OF assms(1)] ground_modelled(3-5) [OF assms(2)]
    ground_modelled(3-5) [OF assms(3)]
  by (simp_all add: string_evals token_evals)

lemma A3_no_tokens:
  assumes "ground wa" "ground wb"
  shows "\<not> has_token (str ''A'') (str ''(('' @ [NEG] @ wb @ str '' '' @ [ARROW] @ str '' '' @ [NEG] @ wa @ str '') ''
          @ [ARROW] @ str '' ('' @ wa @ str '' '' @ [ARROW] @ str '' '' @ wb @ str ''))'')"
    "\<not> has_token (str ''B'') (str ''(('' @ [NEG] @ wb @ str '' '' @ [ARROW] @ str '' '' @ [NEG] @ wa @ str '') ''
          @ [ARROW] @ str '' ('' @ wa @ str '' '' @ [ARROW] @ str '' '' @ wb @ str ''))'')"
    "\<not> has_token (str ''C'') (str ''(('' @ [NEG] @ wb @ str '' '' @ [ARROW] @ str '' '' @ [NEG] @ wa @ str '') ''
          @ [ARROW] @ str '' ('' @ wa @ str '' '' @ [ARROW] @ str '' '' @ wb @ str ''))'')"
  using ground_modelled(3-5) [OF assms(1)] ground_modelled(3-5) [OF assms(2)]
  by (simp_all add: string_evals token_evals)


text \<open>
  C7. The Substitution Engine on the three templates. A token of a text is a maximal run
  of word characters (letters, digits, underscore), and every other character is a token
  of its own. Let \<open>wa\<close>, \<open>wb\<close> and \<open>wc\<close> be ground: texts of ASCII characters other than
  the backslash, negation signs and arrows that have none of the tokens \<open>A\<close>, \<open>B\<close>, \<open>C\<close>.
  Then \<open>substitute\<close> returns, for each template, the text of the template with \<open>A\<close>, \<open>B\<close>
  and \<open>C\<close> replaced by \<open>wa\<close>, \<open>wb\<close> and \<open>wc\<close>, and this text has none of the tokens \<open>A\<close>,
  \<open>B\<close>, \<open>C\<close>. One pass of the substitution, \<open>re.sub\<close> with the pattern \<open>\bvar\b\<close>, replaces
  exactly the tokens that are equal to the variable: a longer identifier that contains the
  variable is another token and stays.
\<close>

theorem substitute_templates:
  assumes "ground wa" "ground wb" "ground wc"
  shows "(\<exists>f1 f2 f3.
        f1 = str ''('' @ wa @ str '' '' @ [ARROW] @ str '' ('' @ wb @ str '' '' @ [ARROW]
             @ str '' '' @ wa @ str ''))'' \<and>
        f2 = str ''(('' @ wa @ str '' '' @ [ARROW] @ str '' ('' @ wb @ str '' '' @ [ARROW]
             @ str '' '' @ wc @ str '')) '' @ [ARROW] @ str '' (('' @ wa @ str '' '' @ [ARROW]
             @ str '' '' @ wb @ str '') '' @ [ARROW] @ str '' ('' @ wa @ str '' '' @ [ARROW]
             @ str '' '' @ wc @ str '')))'' \<and>
        f3 = str ''(('' @ [NEG] @ wb @ str '' '' @ [ARROW] @ str '' '' @ [NEG] @ wa @ str '') ''
             @ [ARROW] @ str '' ('' @ wa @ str '' '' @ [ARROW] @ str '' '' @ wb @ str ''))'' \<and>
        substitute A1_template (dict_zip [str ''A'', str ''B''] [wa, wb]) = Some f1 \<and>
        substitute A2_template (dict_zip [str ''A'', str ''B'', str ''C''] [wa, wb, wc]) = Some f2 \<and>
        substitute A3_template (dict_zip [str ''A'', str ''B''] [wa, wb]) = Some f3 \<and>
        \<not> has_token (str ''A'') f1 \<and> \<not> has_token (str ''B'') f1 \<and> \<not> has_token (str ''C'') f1 \<and>
        \<not> has_token (str ''A'') f2 \<and> \<not> has_token (str ''B'') f2 \<and> \<not> has_token (str ''C'') f2 \<and>
        \<not> has_token (str ''A'') f3 \<and> \<not> has_token (str ''B'') f3 \<and> \<not> has_token (str ''C'') f3) \<and>
     (\<forall>var repl s.
        var \<noteq> [] \<and> list_all is_word_char var \<and>
        modelled_text var \<and> modelled_text repl \<and> modelled_text s \<and> BACKSLASH \<notin> set repl \<longrightarrow>
        re_sub_word var repl s
          = Some (concat (map (\<lambda>t. if t = var then repl else t) (tokens s))))"
proof -
  have tok: "\<forall>var repl s.
        var \<noteq> [] \<and> list_all is_word_char var \<and>
        modelled_text var \<and> modelled_text repl \<and> modelled_text s \<and> BACKSLASH \<notin> set repl \<longrightarrow>
        re_sub_word var repl s
          = Some (concat (map (\<lambda>t. if t = var then repl else t) (tokens s)))"
    using re_sub_word_tokens unfolding replace_tokens_def by blast
  note c = A1_closed [OF assms(1,2)] A2_closed [OF assms] A3_closed [OF assms(1,2)]
  note n = A1_no_tokens [OF assms(1,2)] A2_no_tokens [OF assms] A3_no_tokens [OF assms(1,2)]
  from c n tok show ?thesis by simp
qed

theorem substitute_templates_witness:
  "ground (str ''(a '' @ [ARROW] @ str '' b)'') \<and> ground (str ''('' @ [NEG] @ str ''a)'') \<and>
   ground (str ''b'') \<and>
   substitute A1_template (dict_zip [str ''A'', str ''B'']
       [str ''(a '' @ [ARROW] @ str '' b)'', str ''('' @ [NEG] @ str ''a)''])
     = Some (str ''((a '' @ [ARROW] @ str '' b) '' @ [ARROW] @ str '' (('' @ [NEG] @ str ''a) ''
             @ [ARROW] @ str '' (a '' @ [ARROW] @ str '' b)))'') \<and>
   substitute A2_template (dict_zip [str ''A'', str ''B'', str ''C'']
       [str ''(a '' @ [ARROW] @ str '' b)'', str ''('' @ [NEG] @ str ''a)'', str ''b''])
     = Some (str ''(((a '' @ [ARROW] @ str '' b) '' @ [ARROW] @ str '' (('' @ [NEG] @ str ''a) ''
             @ [ARROW] @ str '' b)) '' @ [ARROW] @ str '' (((a '' @ [ARROW] @ str '' b) ''
             @ [ARROW] @ str '' ('' @ [NEG] @ str ''a)) '' @ [ARROW] @ str '' ((a '' @ [ARROW]
             @ str '' b) '' @ [ARROW] @ str '' b)))'') \<and>
   substitute A3_template (dict_zip [str ''A'', str ''B'']
       [str ''(a '' @ [ARROW] @ str '' b)'', str ''('' @ [NEG] @ str ''a)''])
     = Some (str ''(('' @ [NEG] @ str ''('' @ [NEG] @ str ''a) '' @ [ARROW] @ str '' '' @ [NEG]
             @ str ''(a '' @ [ARROW] @ str '' b)) '' @ [ARROW] @ str '' ((a '' @ [ARROW]
             @ str '' b) '' @ [ARROW] @ str '' ('' @ [NEG] @ str ''a)))'') \<and>
   tokens (str ''(AX '' @ [ARROW] @ str '' A)'')
     = [str ''('', str ''AX'', str '' '', [ARROW], str '' '', str ''A'', str '')''] \<and>
   re_sub_word (str ''A'') (str ''a'') (str ''(AX '' @ [ARROW] @ str '' A)'')
     = Some (str ''(AX '' @ [ARROW] @ str '' a)'')"
proof -
  have g: "ground (str ''(a '' @ [ARROW] @ str '' b)'')" "ground (str ''('' @ [NEG] @ str ''a)'')"
    "ground (str ''b'')"
    by (simp_all add: ground_def has_token_def is_word_char_def string_evals)
  note t = substitute_templates [OF g]
  have w: "str ''A'' \<noteq> [] \<and> list_all is_word_char (str ''A'') \<and>
        modelled_text (str ''A'') \<and> modelled_text (str ''a'') \<and>
        modelled_text (str ''(AX '' @ [ARROW] @ str '' A)'') \<and> BACKSLASH \<notin> set (str ''a'')"
    by (simp add: modelled_text_def is_word_char_def string_evals)
  have tk: "tokens (str ''(AX '' @ [ARROW] @ str '' A)'')
     = [str ''('', str ''AX'', str '' '', [ARROW], str '' '', str ''A'', str '')'']"
    by (simp add: is_word_char_def string_evals)
  from t w have "re_sub_word (str ''A'') (str ''a'') (str ''(AX '' @ [ARROW] @ str '' A)'')
     = Some (concat (map (\<lambda>t. if t = str ''A'' then str ''a'' else t)
         (tokens (str ''(AX '' @ [ARROW] @ str '' A)''))))" by blast
  then have ax: "re_sub_word (str ''A'') (str ''a'') (str ''(AX '' @ [ARROW] @ str '' A)'')
     = Some (str ''(AX '' @ [ARROW] @ str '' a)'')"
    unfolding tk by (simp add: string_evals)
  from t have
    "substitute A1_template (dict_zip [str ''A'', str ''B'']
       [str ''(a '' @ [ARROW] @ str '' b)'', str ''('' @ [NEG] @ str ''a)''])
     = Some (str ''((a '' @ [ARROW] @ str '' b) '' @ [ARROW] @ str '' (('' @ [NEG] @ str ''a) ''
             @ [ARROW] @ str '' (a '' @ [ARROW] @ str '' b)))'')"
    "substitute A2_template (dict_zip [str ''A'', str ''B'', str ''C'']
       [str ''(a '' @ [ARROW] @ str '' b)'', str ''('' @ [NEG] @ str ''a)'', str ''b''])
     = Some (str ''(((a '' @ [ARROW] @ str '' b) '' @ [ARROW] @ str '' (('' @ [NEG] @ str ''a) ''
             @ [ARROW] @ str '' b)) '' @ [ARROW] @ str '' (((a '' @ [ARROW] @ str '' b) ''
             @ [ARROW] @ str '' ('' @ [NEG] @ str ''a)) '' @ [ARROW] @ str '' ((a '' @ [ARROW]
             @ str '' b) '' @ [ARROW] @ str '' b)))'')"
    "substitute A3_template (dict_zip [str ''A'', str ''B'']
       [str ''(a '' @ [ARROW] @ str '' b)'', str ''('' @ [NEG] @ str ''a)''])
     = Some (str ''(('' @ [NEG] @ str ''('' @ [NEG] @ str ''a) '' @ [ARROW] @ str '' '' @ [NEG]
             @ str ''(a '' @ [ARROW] @ str '' b)) '' @ [ARROW] @ str '' ((a '' @ [ARROW]
             @ str '' b) '' @ [ARROW] @ str '' ('' @ [NEG] @ str ''a)))'')"
    by (simp_all add: string_evals)
  with g tk ax show ?thesis by (intro conjI)
qed

section \<open>The axiom instances of the reference configuration\<close>







section \<open>Option B: the extension by Modus Ponens\<close>





end
